theory Spec2Isabelle
  imports Main "HOL-Library.Word" "HOL-Library.Multiset"
begin

unbundle bit_operations_syntax

section \<open>Data model of Interleave.c\<close>

type_synonym UINT16 = "16 word"
type_synonym UINT32 = "32 word"
type_synonym UINT64 = "64 word"

text \<open>The status codes that Interleave.c assigns to \<open>ReturnCode\<close>.\<close>

datatype EFI_STATUS =
    EFI_SUCCESS
  | EFI_INVALID_PARAMETER
  | EFI_ABORTED
  | EFI_BAD_BUFFER_SIZE
  | EFI_OUT_OF_RESOURCES

text \<open>
  Modelled from the spec: the macro \<open>EFI_ERROR\<close> comes from the UEFI headers, which are
  not part of Interleave.c. Every status other than success is a failure
  (the spec's error taxonomy, section 7).
\<close>

definition EFI_ERROR :: "EFI_STATUS \<Rightarrow> bool" where
  "EFI_ERROR ReturnCode = (ReturnCode \<noteq> EFI_SUCCESS)"

text \<open>
  Modelled from the spec: \<open>struct DIMM\<close> is declared in Dimm.h, which is absent. The
  code reads only the fields \<open>ImcId\<close> and \<open>ChannelId\<close>, which the spec describes as small
  non-negative integers (section 4.1).
\<close>

record DIMM =
  ImcId :: nat
  ChannelId :: nat

text \<open>
  A \<open>DIMM *\<close> is an address; \<open>NULL\<close> is address 0. DIMM objects live in a store that the
  code only reads. Two pointers are the same DIMM exactly when the addresses are equal,
  which is the comparison \<open>pDimm == pDimmsList[Index]\<close> of the source.
\<close>

type_synonym dimm_ptr = nat
type_synonym dimm_store = "dimm_ptr \<rightharpoonup> DIMM"

abbreviation (input) NULL :: dimm_ptr where
  "NULL \<equiv> 0"

text \<open>
  Reading through a pointer (\<open>pDimms[Index]->ImcId\<close>). The result \<open>None\<close> stands for
  behaviour that C leaves undefined: here a null or dangling pointer. Throughout the
  model the outer \<open>option\<close> of a result has this meaning; the other sources of \<open>None\<close>
  are an array access outside the array and a shift the C standard does not define.
\<close>

definition deref :: "dimm_store \<Rightarrow> dimm_ptr \<Rightarrow> DIMM option" where
  "deref h p = (if p = NULL then None else h p)"

subsection \<open>The macros\<close>

definition CHANNELS_PER_IMC :: nat where
  "CHANNELS_PER_IMC = 3"

text \<open>
  \<open>DIMM_LOCATION(iMC, channel) = (2 * (channel % CHANNELS_PER_IMC) + iMC)\<close>, assigned
  to the \<open>UINT32 DimmIndex\<close>.
\<close>

definition DIMM_LOCATION :: "nat \<Rightarrow> nat \<Rightarrow> UINT32" where
  "DIMM_LOCATION iMC channel = of_nat (2 * (channel mod CHANNELS_PER_IMC) + iMC)"

text \<open>
  \<open>DIMM_POPULATED(map, dimmIndex) = ((map >> dimmIndex) & 0x1)\<close> on a \<open>UINT32\<close> map:
  shifting by 32 or more is undefined in C.
\<close>

definition DIMM_POPULATED :: "UINT32 \<Rightarrow> UINT32 \<Rightarrow> UINT32 option" where
  "DIMM_POPULATED bitmap dimmIndex =
     (if unat dimmIndex < 32 then Some (drop_bit (unat dimmIndex) bitmap AND 1) else None)"

text \<open>
  \<open>CLEAR_DIMM(map, dimmIndex)\<close> is \<open>map &= ~(0x1 << dimmIndex)\<close>. The constant is a
  signed \<open>int\<close>, so the shift is defined for a shift count up to 30 only.
\<close>

definition CLEAR_DIMM :: "UINT32 \<Rightarrow> UINT32 \<Rightarrow> UINT32 option" where
  "CLEAR_DIMM bitmap dimmIndex =
     (if unat dimmIndex < 31 then Some (bitmap AND NOT (push_bit (unat dimmIndex) 1)) else None)"

subsection \<open>The priority table\<close>

definition END_OF_INTERLEAVE_SETS :: UINT32 where
  "END_OF_INTERLEAVE_SETS = 0"

definition INTERLEAVE_SETS :: "UINT32 list" where
  "INTERLEAVE_SETS =
     [0x3F,
      0x0F, 0x3C, 0x33,
      0x15, 0x2A,
      0x03, 0x0C, 0x30,
      0x05, 0x0A, 0x14, 0x28, 0x11, 0x22,
      0x01, 0x02, 0x04, 0x08, 0x10, 0x20,
      END_OF_INTERLEAVE_SETS]"

section \<open>Loop counters\<close>

text \<open>
  Every \<open>for\<close> loop of the source counts a \<open>UINT32 Index\<close> up to a bound; below the
  bound the increment cannot wrap.
\<close>

lemma unat_succ_below: "(i::'a::len word) < n \<Longrightarrow> unat (i + 1) = Suc (unat i)"
proof -
  assume below: "i < n"
  have "i \<noteq> - 1"
    using below by auto
  then have "1 + i \<noteq> 0"
    by (simp add: add_eq_0_iff)
  then show ?thesis
    using unatSuc [of i] by (simp add: add.commute)
qed

lemma counter_measure: "(i::'a::len word) < n \<Longrightarrow> unat n - unat (i + 1) < unat n - unat i"
  by (simp add: unat_succ_below word_less_nat_alt)

lemma table_index_measure:
  fixes Index :: UINT32
  assumes inside: "unat Index < length INTERLEAVE_SETS"
  shows "length INTERLEAVE_SETS - unat (Index + 1) < length INTERLEAVE_SETS - unat Index"
proof -
  have "length INTERLEAVE_SETS = 22"
    by (simp add: INTERLEAVE_SETS_def)
  with inside have "Index < 22"
    by (simp add: word_less_nat_alt)
  then have "unat (Index + 1) = Suc (unat Index)"
    by (rule unat_succ_below)
  with inside show ?thesis
    by simp
qed

section \<open>List maintenance\<close>

text \<open>
  An array parameter \<open>DIMM *pDimmsList[]\<close> is a list holding the whole array (its length
  is the capacity), or \<open>None\<close> when the pointer is null; the count is a separate
  \<open>UINT32\<close>, passed by pointer where the source does so. A function returns its status
  together with the new contents of what its in-out parameters point to.
\<close>

text \<open>The search loop of \<open>RemoveDimmFromList\<close>: the result is \<open>(Found, Index)\<close>.\<close>

function find_dimm :: "dimm_ptr list \<Rightarrow> UINT32 \<Rightarrow> dimm_ptr \<Rightarrow> UINT32 \<Rightarrow> (bool \<times> UINT32) option" where
  "find_dimm pDimmsList DimmsListNum pDimm Index =
     (if Index < DimmsListNum then
        (if unat Index < length pDimmsList then
           (if pDimm = pDimmsList ! unat Index then Some (True, Index)
            else find_dimm pDimmsList DimmsListNum pDimm (Index + 1))
         else None)
      else Some (False, Index))"
  by pat_completeness auto
termination
  by (relation "measure (\<lambda>(l, n, p, i). unat n - unat i)")
     (auto simp: counter_measure)

declare find_dimm.simps [simp del]

text \<open>The compaction loop: \<open>pDimmsList[Index] = pDimmsList[Index+1]\<close>.\<close>

function shift_left :: "dimm_ptr list \<Rightarrow> UINT32 \<Rightarrow> UINT32 \<Rightarrow> dimm_ptr list option" where
  "shift_left pDimmsList DimmsListNum Index =
     (if Index < DimmsListNum - 1 then
        (if unat Index < length pDimmsList \<and> unat (Index + 1) < length pDimmsList then
           shift_left (pDimmsList[unat Index := pDimmsList ! unat (Index + 1)])
             DimmsListNum (Index + 1)
         else None)
      else Some pDimmsList)"
  by pat_completeness auto
termination
  by (relation "measure (\<lambda>(l, n, i). unat (n - 1) - unat i)")
     (auto simp: counter_measure)

declare shift_left.simps [simp del]

definition RemoveDimmFromList ::
  "dimm_ptr list option \<Rightarrow> UINT32 option \<Rightarrow> dimm_ptr \<Rightarrow>
     (EFI_STATUS \<times> dimm_ptr list option \<times> UINT32 option) option" where
  "RemoveDimmFromList pDimmsList pDimmsListNum pDimm =
     (if pDimmsList = None \<or> pDimmsListNum = None \<or> pDimm = NULL then
        Some (EFI_INVALID_PARAMETER, pDimmsList, pDimmsListNum)
      else
        (case find_dimm (the pDimmsList) (the pDimmsListNum) pDimm 0 of
           None \<Rightarrow> None
         | Some (Found, Index) \<Rightarrow>
             if Found then
               (case shift_left (the pDimmsList) (the pDimmsListNum) Index of
                  None \<Rightarrow> None
                | Some l \<Rightarrow> Some (EFI_SUCCESS, Some l, Some (the pDimmsListNum - 1)))
             else Some (EFI_SUCCESS, pDimmsList, pDimmsListNum)))"

text \<open>
  The loop of \<open>RemoveDimmArrayFromList\<close>; the status of each \<open>RemoveDimmFromList\<close> call
  is dropped, as in the source.
\<close>

function remove_each ::
  "dimm_ptr list \<Rightarrow> UINT32 \<Rightarrow> dimm_ptr list \<Rightarrow> UINT32 \<Rightarrow> UINT32 \<Rightarrow>
     (dimm_ptr list \<times> UINT32) option" where
  "remove_each pDimmsList DimmsListNum pDimmsArray DimmsArrayNum Index =
     (if Index < DimmsArrayNum then
        (if unat Index < length pDimmsArray then
           (case RemoveDimmFromList (Some pDimmsList) (Some DimmsListNum)
                   (pDimmsArray ! unat Index) of
              Some (ReturnCode, Some l, Some n) \<Rightarrow>
                remove_each l n pDimmsArray DimmsArrayNum (Index + 1)
            | _ \<Rightarrow> None)
         else None)
      else Some (pDimmsList, DimmsListNum))"
  by pat_completeness auto
termination
  by (relation "measure (\<lambda>(l, n, a, k, i). unat k - unat i)")
     (auto simp: counter_measure)

declare remove_each.simps [simp del]

definition RemoveDimmArrayFromList ::
  "dimm_ptr list option \<Rightarrow> UINT32 option \<Rightarrow> dimm_ptr list option \<Rightarrow> UINT32 \<Rightarrow>
     (EFI_STATUS \<times> dimm_ptr list option \<times> UINT32 option) option" where
  "RemoveDimmArrayFromList pDimmsList pDimmsListNum pDimmsArray DimmsArrayNum =
     (if pDimmsList = None \<or> pDimmsArray = None \<or> pDimmsListNum = None then
        Some (EFI_INVALID_PARAMETER, pDimmsList, pDimmsListNum)
      else
        (case remove_each (the pDimmsList) (the pDimmsListNum) (the pDimmsArray)
                DimmsArrayNum 0 of
           None \<Rightarrow> None
         | Some (l, n) \<Rightarrow> Some (EFI_SUCCESS, Some l, Some n)))"

section \<open>Pattern matcher\<close>

text \<open>
  The scan of \<open>GetDimmsFromListMatchingInterleaveSet\<close>. The loop state is the output
  array \<open>pDimmsInterleaved\<close>, the count \<open>*pDimmsUsed\<close> and \<open>DimmsNotFound\<close>.
\<close>

function match_scan ::
  "dimm_store \<Rightarrow> dimm_ptr list \<Rightarrow> UINT32 \<Rightarrow> UINT32 \<Rightarrow> UINT32 \<Rightarrow>
     dimm_ptr list \<Rightarrow> UINT32 \<Rightarrow> UINT32 \<Rightarrow> (dimm_ptr list \<times> UINT32 \<times> UINT32) option" where
  "match_scan h pDimms DimmsNum InterleaveMap Index pDimmsInterleaved DimmsUsed DimmsNotFound =
     (if Index < DimmsNum then
        (if unat Index < length pDimms then
           (case deref h (pDimms ! unat Index) of
              None \<Rightarrow> None
            | Some d \<Rightarrow>
                let DimmIndex = DIMM_LOCATION (ImcId d) (ChannelId d) in
                (case DIMM_POPULATED InterleaveMap DimmIndex of
                   None \<Rightarrow> None
                 | Some populated \<Rightarrow>
                     if populated \<noteq> 0 then
                       (if unat DimmsUsed < length pDimmsInterleaved then
                          (case CLEAR_DIMM DimmsNotFound DimmIndex of
                             None \<Rightarrow> None
                           | Some cleared \<Rightarrow>
                               match_scan h pDimms DimmsNum InterleaveMap (Index + 1)
                                 (pDimmsInterleaved[unat DimmsUsed := pDimms ! unat Index])
                                 (DimmsUsed + 1) cleared)
                        else None)
                     else
                       match_scan h pDimms DimmsNum InterleaveMap (Index + 1)
                         pDimmsInterleaved DimmsUsed DimmsNotFound))
         else None)
      else Some (pDimmsInterleaved, DimmsUsed, DimmsNotFound))"
  by pat_completeness auto
termination
  by (relation "measure (\<lambda>(h, l, n, m, i, b, u, f). unat n - unat i)")
     (auto simp: counter_measure)

declare match_scan.simps [simp del]

definition GetDimmsFromListMatchingInterleaveSet ::
  "dimm_store \<Rightarrow> dimm_ptr list option \<Rightarrow> UINT32 \<Rightarrow> UINT32 \<Rightarrow> dimm_ptr list option \<Rightarrow>
     UINT32 option \<Rightarrow> (EFI_STATUS \<times> dimm_ptr list option \<times> UINT32 option) option" where
  "GetDimmsFromListMatchingInterleaveSet h pDimms DimmsNum InterleaveMap pDimmsInterleaved
       pDimmsUsed =
     (if pDimms = None \<or> pDimmsInterleaved = None \<or> pDimmsUsed = None then
        Some (EFI_INVALID_PARAMETER, pDimmsInterleaved, pDimmsUsed)
      else
        (case match_scan h (the pDimms) DimmsNum InterleaveMap 0 (the pDimmsInterleaved)
                (the pDimmsUsed) InterleaveMap of
           None \<Rightarrow> None
         | Some (buf, DimmsUsed, DimmsNotFound) \<Rightarrow>
             Some (EFI_SUCCESS, Some buf,
                   Some (if DimmsNotFound \<noteq> 0 then 0 else DimmsUsed))))"

section \<open>Best-match selector\<close>

text \<open>
  The table scan of \<open>FindBestInterleavingForDimms\<close>. The condition is
  \<open>(*pDimmsUsed == 0) && (INTERLEAVE_SETS[Index] != END_OF_INTERLEAVE_SETS)\<close>: the table
  is read only when the count is zero. The status of the pattern matcher is dropped, as
  in the source. The final \<open>Index\<close> is returned with the loop state: it is the number of
  patterns tried.
\<close>

function table_scan ::
  "dimm_store \<Rightarrow> dimm_ptr list \<Rightarrow> UINT32 \<Rightarrow> UINT32 \<Rightarrow> dimm_ptr list \<Rightarrow> UINT32 \<Rightarrow>
     (dimm_ptr list \<times> UINT32 \<times> UINT32) option" where
  "table_scan h pDimms DimmsNum Index pDimmsInterleaved DimmsUsed =
     (if DimmsUsed = 0 then
        (if unat Index < length INTERLEAVE_SETS then
           (if INTERLEAVE_SETS ! unat Index \<noteq> END_OF_INTERLEAVE_SETS then
              (case GetDimmsFromListMatchingInterleaveSet h (Some pDimms) DimmsNum
                      (INTERLEAVE_SETS ! unat Index) (Some pDimmsInterleaved) (Some DimmsUsed) of
                 Some (ReturnCode, Some buf, Some used) \<Rightarrow>
                   table_scan h pDimms DimmsNum (Index + 1) buf used
               | _ \<Rightarrow> None)
            else Some (pDimmsInterleaved, DimmsUsed, Index))
         else None)
      else Some (pDimmsInterleaved, DimmsUsed, Index))"
  by pat_completeness auto
termination
  by (relation "measure (\<lambda>(h, l, n, i, b, u). length INTERLEAVE_SETS - unat i)")
     (auto simp: table_index_measure)

declare table_scan.simps [simp del]

definition FindBestInterleavingForDimms ::
  "dimm_store \<Rightarrow> dimm_ptr list option \<Rightarrow> UINT32 \<Rightarrow> dimm_ptr list option \<Rightarrow> UINT32 option \<Rightarrow>
     (EFI_STATUS \<times> dimm_ptr list option \<times> UINT32 option) option" where
  "FindBestInterleavingForDimms h pDimms DimmsNum pDimmsInterleaved pDimmsUsed =
     (if pDimms = None \<or> pDimmsInterleaved = None \<or> pDimmsUsed = None then
        Some (EFI_INVALID_PARAMETER, pDimmsInterleaved, pDimmsUsed)
      else
        (case table_scan h (the pDimms) DimmsNum 0 (the pDimmsInterleaved) (the pDimmsUsed) of
           None \<Rightarrow> None
         | Some (buf, DimmsUsed, Index) \<Rightarrow>
             if DimmsUsed = 0 then Some (EFI_ABORTED, Some buf, Some DimmsUsed)
             else Some (EFI_SUCCESS, Some buf, Some DimmsUsed)))"

section \<open>Counting list steps\<close>












section \<open>Properties of list maintenance\<close>

lemma unat32_bound: "unat (n :: UINT32) < 2 ^ 32"
  using unsigned_less [of n, where ?'a = nat] by simp

lemma find_dimm_absent:
  "unat n \<le> length l \<Longrightarrow> i \<le> n \<Longrightarrow> \<forall>j. unat i \<le> j \<and> j < unat n \<longrightarrow> l ! j \<noteq> p \<Longrightarrow>
   find_dimm l n p i = Some (False, n)"
proof (induction l n p i rule: find_dimm.induct)
  case (1 l n p i)
  show ?case
  proof (cases "i < n")
    case True
    then have s: "unat (i + 1) = Suc (unat i)" by (rule unat_succ_below)
    from True have lt: "unat i < unat n" by (simp add: word_less_nat_alt)
    with 1(2) have inb: "unat i < length l" by simp
    from 1(4) lt have ne: "p \<noteq> l ! unat i" by auto
    have le: "i + 1 \<le> n" using True by (simp add: inc_le)
    have "find_dimm l n p (i + 1) = Some (False, n)"
      using 1(1)[OF True inb ne 1(2) le] 1(4) s by auto
    then show ?thesis using True inb ne by (subst find_dimm.simps) simp
  next
    case False
    with 1(3) have "i = n" by simp
    then show ?thesis by (subst find_dimm.simps) simp
  qed
qed

lemma find_dimm_present:
  "unat n \<le> length l \<Longrightarrow> unat i \<le> k \<Longrightarrow> k < unat n \<Longrightarrow> l ! k = p \<Longrightarrow>
   \<forall>j. unat i \<le> j \<and> j < k \<longrightarrow> l ! j \<noteq> p \<Longrightarrow>
   find_dimm l n p i = Some (True, of_nat k)"
proof (induction l n p i rule: find_dimm.induct)
  case (1 l n p i)
  from 1(3,4) have lt: "i < n" by (simp add: word_less_nat_alt)
  then have s: "unat (i + 1) = Suc (unat i)" by (rule unat_succ_below)
  from lt 1(2) have inb: "unat i < length l" by (simp add: word_less_nat_alt)
  show ?case
  proof (cases "unat i = k")
    case True
    then have "of_nat k = i" by auto
    then show ?thesis using lt inb True 1(5) by (subst find_dimm.simps) simp
  next
    case False
    with 1(3) have lk: "unat i < k" by simp
    with 1(6) have ne: "p \<noteq> l ! unat i" by auto
    have "find_dimm l n p (i + 1) = Some (True, of_nat k)"
      using 1(1)[OF lt inb ne 1(2)] s lk 1(4,5,6) by auto
    then show ?thesis using lt inb ne by (subst find_dimm.simps) simp
  qed
qed

lemma find_dimm_found_bound:
  "find_dimm l n p i = Some (True, idx) \<Longrightarrow> idx < n"
proof (induction l n p i rule: find_dimm.induct)
  case (1 l n p i)
  then show ?case
    by (subst (asm) (2) find_dimm.simps) (auto split: if_splits)
qed

lemma find_dimm_not_found:
  "find_dimm l n p i = Some (False, idx) \<Longrightarrow> unat i \<le> j \<Longrightarrow> j < unat n \<Longrightarrow> j < length l \<and> l ! j \<noteq> p"
proof (induction l n p i rule: find_dimm.induct)
  case (1 l n p i)
  from 1(3,4) have lt: "i < n" by (simp add: word_less_nat_alt)
  then have s: "unat (i + 1) = Suc (unat i)" by (rule unat_succ_below)
  from 1(2) lt have inb: "unat i < length l" and ne: "p \<noteq> l ! unat i"
    and rest: "find_dimm l n p (i + 1) = Some (False, idx)"
    by (subst (asm) find_dimm.simps, auto split: if_splits)+
  show ?case
  proof (cases "j = unat i")
    case True
    then show ?thesis using inb ne by simp
  next
    case False
    with 1(3) s have "unat (i + 1) \<le> j" by simp
    from 1(1)[OF lt inb ne rest this 1(4)] show ?thesis .
  qed
qed

lemma shift_left_closed:
  "unat n \<le> length l \<Longrightarrow> Suc k \<le> unat n \<Longrightarrow>
   shift_left l n (of_nat k) = Some (take k l @ drop (Suc k) (take (unat n) l) @ drop (unat n - 1) l)"
proof (induction "unat n - Suc k" arbitrary: k l)
  case 0
  then have kn: "Suc k = unat n" by simp
  have b: "unat n < 2 ^ 32" by (rule unat32_bound)
  have uk: "unat (of_nat k :: UINT32) = k" using kn b by (simp add: unat_of_nat)
  have n0: "n \<noteq> 0" using kn by auto
  have "unat (n - 1) = k" using kn n0 by (simp add: unat_minus_one)
  then have "\<not> (of_nat k :: UINT32) < n - 1" using uk by (simp add: word_less_nat_alt)
  moreover have "take k l @ drop (Suc k) (take (unat n) l) @ drop (unat n - 1) l = l"
    using kn [symmetric] by simp
  ultimately show ?case by (subst shift_left.simps) simp
next
  case (Suc d)
  then have kn: "Suc (Suc k) \<le> unat n" by simp
  have b: "unat n < 2 ^ 32" by (rule unat32_bound)
  have uk: "unat (of_nat k :: UINT32) = k" using kn b by (simp add: unat_of_nat)
  have n0: "n \<noteq> 0" using kn by auto
  have n1: "unat (n - 1) = unat n - 1" using n0 by (simp add: unat_minus_one)
  have lt: "(of_nat k :: UINT32) < n - 1" using uk n1 kn by (simp add: word_less_nat_alt)
  have uk1: "unat (of_nat k + 1 :: UINT32) = Suc k" using unat_succ_below [OF lt] uk by simp
  have inb: "Suc k < length l" using kn Suc.prems by simp
  let ?l1 = "l[k := l ! Suc k]"
  have IH: "shift_left ?l1 n (of_nat (Suc k)) =
      Some (take (Suc k) ?l1 @ drop (Suc (Suc k)) (take (unat n) ?l1) @ drop (unat n - 1) ?l1)"
    using Suc.hyps(1) [of "Suc k" ?l1] Suc.hyps(2) Suc.prems kn by simp
  have e1: "take (Suc k) ?l1 = take k l @ [l ! Suc k]"
    using inb by (simp add: take_Suc_conv_app_nth)
  have e2: "drop (Suc (Suc k)) (take (unat n) ?l1) = drop (Suc (Suc k)) (take (unat n) l)"
    by (simp add: drop_take)
  have e3: "drop (unat n - 1) ?l1 = drop (unat n - 1) l"
    using kn by simp
  have e4: "drop (Suc k) (take (unat n) l) = l ! Suc k # drop (Suc (Suc k)) (take (unat n) l)"
    using kn inb by (simp add: Cons_nth_drop_Suc [symmetric])
  show ?case
    using lt inb uk uk1 IH e1 e2 e3 e4
    by (subst shift_left.simps) (simp add: add.commute)
qed

lemma remove1_first_index:
  "k < length xs \<Longrightarrow> xs ! k = p \<Longrightarrow> \<forall>j<k. xs ! j \<noteq> p \<Longrightarrow>
   remove1 p xs = take k xs @ drop (Suc k) xs"
proof (induction xs arbitrary: k)
  case Nil
  then show ?case by simp
next
  case (Cons x xs)
  show ?case
  proof (cases k)
    case 0
    with Cons.prems show ?thesis by simp
  next
    case (Suc k')
    with Cons.prems have "x \<noteq> p" by auto
    moreover have "\<forall>j<k'. xs ! j \<noteq> p"
    proof (intro allI impI)
      fix j assume "j < k'"
      then have "Suc j < k" using Suc by simp
      with Cons.prems(3) have "(x # xs) ! Suc j \<noteq> p" by blast
      then show "xs ! j \<noteq> p" by simp
    qed
    then have "remove1 p xs = take k' xs @ drop (Suc k') xs"
      using Cons.IH [of k'] Cons.prems(1,2) Suc by simp
    ultimately show ?thesis using Suc by simp
  qed
qed

lemma first_index_exists:
  "p \<in> set xs \<Longrightarrow> \<exists>k<length xs. xs ! k = p \<and> (\<forall>j<k. xs ! j \<noteq> p)"
proof -
  assume "p \<in> set xs"
  then have ex: "\<exists>k. k < length xs \<and> xs ! k = p" by (auto simp: in_set_conv_nth)
  define k where "k = (LEAST k. k < length xs \<and> xs ! k = p)"
  have "k < length xs \<and> xs ! k = p" unfolding k_def using ex by (rule LeastI_ex)
  moreover have "\<forall>j<k. xs ! j \<noteq> p"
  proof (intro allI impI notI)
    fix j assume "j < k" "xs ! j = p"
    moreover have "j < length xs" using \<open>j < k\<close> \<open>k < length xs \<and> xs ! k = p\<close> by simp
    ultimately have "k \<le> j" unfolding k_def by (intro Least_le) simp
    with \<open>j < k\<close> show False by simp
  qed
  ultimately show ?thesis by blast
qed

lemma RemoveDimmFromList_absent:
  assumes "unat n \<le> length l" "p \<noteq> NULL" "p \<notin> set (take (unat n) l)"
  shows "RemoveDimmFromList (Some l) (Some n) p = Some (EFI_SUCCESS, Some l, Some n)"
proof -
  have "\<forall>j. unat (0::UINT32) \<le> j \<and> j < unat n \<longrightarrow> l ! j \<noteq> p"
    using assms(1,3) by (auto simp: in_set_conv_nth)
  then have "find_dimm l n p 0 = Some (False, n)"
    using assms(1) by (intro find_dimm_absent) auto
  then show ?thesis using assms(2) by (simp add: RemoveDimmFromList_def)
qed

lemma RemoveDimmFromList_present:
  assumes "unat n \<le> length l" "p \<noteq> NULL" "p \<in> set (take (unat n) l)"
  shows "\<exists>l'. RemoveDimmFromList (Some l) (Some n) p = Some (EFI_SUCCESS, Some l', Some (n - 1))
           \<and> length l' = length l \<and> unat (n - 1) = unat n - 1 \<and> n \<noteq> 0
           \<and> take (unat n - 1) l' = remove1 p (take (unat n) l)"
proof -
  let ?ws = "take (unat n) l"
  from first_index_exists [OF assms(3)] obtain k where
    k: "k < length ?ws" "?ws ! k = p" "\<forall>j<k. ?ws ! j \<noteq> p" by blast
  then have kn: "k < unat n" by simp
  have lk: "l ! k = p" using k(1,2) by simp
  have before: "\<forall>j. unat (0::UINT32) \<le> j \<and> j < k \<longrightarrow> l ! j \<noteq> p"
    using k(3) kn by auto
  have f: "find_dimm l n p 0 = Some (True, of_nat k)"
    using assms(1) kn lk before by (intro find_dimm_present) auto
  have n0: "n \<noteq> 0" using kn by auto
  have s: "shift_left l n (of_nat k) =
      Some (take k l @ drop (Suc k) ?ws @ drop (unat n - 1) l)"
    using assms(1) kn by (intro shift_left_closed) auto
  let ?l' = "take k l @ drop (Suc k) ?ws @ drop (unat n - 1) l"
  have len: "length ?l' = length l" using assms(1) kn by simp
  have "take (unat n - 1) ?l' = take k l @ drop (Suc k) ?ws"
    using assms(1) kn by simp
  moreover have "take k l = take k ?ws" using kn by simp
  moreover have "take k ?ws @ drop (Suc k) ?ws = remove1 p ?ws"
    using remove1_first_index [OF k] by simp
  ultimately have t: "take (unat n - 1) ?l' = remove1 p ?ws" by simp
  show ?thesis
    using f s assms(2) len t n0 by (simp add: RemoveDimmFromList_def unat_minus_one)
qed

lemma RemoveDimmFromList_remove1:
  assumes "unat n \<le> length l" "p \<noteq> NULL"
  shows "\<exists>l' n'. RemoveDimmFromList (Some l) (Some n) p = Some (EFI_SUCCESS, Some l', Some n')
           \<and> length l' = length l
           \<and> unat n' = length (remove1 p (take (unat n) l))
           \<and> take (unat n') l' = remove1 p (take (unat n) l)"
proof (cases "p \<in> set (take (unat n) l)")
  case True
  from RemoveDimmFromList_present [OF assms True] obtain l' where
    r: "RemoveDimmFromList (Some l) (Some n) p = Some (EFI_SUCCESS, Some l', Some (n - 1))"
       "length l' = length l" "unat (n - 1) = unat n - 1"
       "take (unat n - 1) l' = remove1 p (take (unat n) l)"
    by blast
  have "length (remove1 p (take (unat n) l)) = unat n - 1"
    using True assms(1) by (simp add: length_remove1)
  with r show ?thesis by simp
next
  case False
  then have "remove1 p (take (unat n) l) = take (unat n) l"
    by (simp add: remove1_idem)
  with RemoveDimmFromList_absent [OF assms False] assms(1) show ?thesis by simp
qed

lemma remove_each_fold:
  assumes "unat k \<le> length arr" "\<forall>p\<in>set (take (unat k) arr). p \<noteq> NULL"
  shows "unat n \<le> length l \<Longrightarrow> i \<le> unat k \<Longrightarrow>
    \<exists>l' n'. remove_each l n arr k (of_nat i) = Some (l', n')
       \<and> length l' = length l
       \<and> unat n' = length (fold remove1 (drop i (take (unat k) arr)) (take (unat n) l))
       \<and> take (unat n') l' = fold remove1 (drop i (take (unat k) arr)) (take (unat n) l)"
proof (induction "unat k - i" arbitrary: i l n)
  case 0
  then have ik: "i = unat k" by simp
  then have "(of_nat i :: UINT32) = k" by simp
  then have "\<not> (of_nat i :: UINT32) < k" by simp
  then have "remove_each l n arr k (of_nat i) = Some (l, n)"
    by (subst remove_each.simps) simp
  then show ?case using ik 0 by simp
next
  case (Suc d)
  then have ik: "i < unat k" by simp
  have b: "unat k < 2 ^ 32" by (rule unat32_bound)
  have ui: "unat (of_nat i :: UINT32) = i" using ik b by (simp add: unat_of_nat)
  have lt: "(of_nat i :: UINT32) < k" using ui ik by (simp add: word_less_nat_alt)
  have inb: "i < length arr" using ik assms(1) by simp
  have mem: "arr ! i \<in> set (take (unat k) arr)"
    using ik inb by (auto simp: in_set_conv_nth intro!: exI [of _ i])
  then have nn: "arr ! i \<noteq> NULL" using assms(2) by blast
  from RemoveDimmFromList_remove1 [OF Suc.prems(1) nn] obtain l1 n1 where
    r: "RemoveDimmFromList (Some l) (Some n) (arr ! i) = Some (EFI_SUCCESS, Some l1, Some n1)"
       "length l1 = length l" "unat n1 = length (remove1 (arr ! i) (take (unat n) l))"
       "take (unat n1) l1 = remove1 (arr ! i) (take (unat n) l)"
    by blast
  have n1l: "unat n1 \<le> length l1"
    using r(2,3) Suc.prems(1) by (simp add: length_remove1 split: if_splits)
  have d': "d = unat k - Suc i" using Suc.hyps(2) by simp
  have sk: "Suc i \<le> unat k" using ik by simp
  from Suc.hyps(1) [OF d' n1l sk] obtain l' n' where
    ih: "remove_each l1 n1 arr k (of_nat (Suc i)) = Some (l', n')" "length l' = length l1"
        "unat n' = length (fold remove1 (drop (Suc i) (take (unat k) arr)) (take (unat n1) l1))"
        "take (unat n') l' = fold remove1 (drop (Suc i) (take (unat k) arr)) (take (unat n1) l1)"
    by blast
  have d: "drop i (take (unat k) arr) = arr ! i # drop (Suc i) (take (unat k) arr)"
    using ik inb by (simp add: Cons_nth_drop_Suc [symmetric])
  have "remove_each l n arr k (of_nat i) = remove_each l1 n1 arr k (of_nat i + 1)"
    using lt inb ui r(1) by (subst remove_each.simps) simp
  then have "remove_each l n arr k (of_nat i) = Some (l', n')"
    using ih(1) by (simp add: add.commute)
  then show ?case using ih(2,3,4) r(2,4) d by simp
qed

lemma RemoveDimmFromList_count_le:
  assumes "RemoveDimmFromList (Some l) (Some n) p = Some (rc, Some l', Some n')"
  shows "n' \<le> n"
proof (cases "p = NULL")
  case True
  with assms show ?thesis by (simp add: RemoveDimmFromList_def)
next
  case False
  show ?thesis
  proof (cases "find_dimm l n p 0")
    case None
    with assms False show ?thesis by (simp add: RemoveDimmFromList_def)
  next
    case (Some r)
    obtain found idx where r: "r = (found, idx)" by (cases r)
    show ?thesis
    proof (cases found)
      case True
      with Some r have "idx < n" by (auto dest: find_dimm_found_bound)
      then have "n \<noteq> 0" by auto
      then have "n - 1 \<le> n" by (simp add: word_le_nat_alt unat_minus_one)
      with assms False Some r True show ?thesis
        by (auto simp: RemoveDimmFromList_def split: option.splits)
    next
      case False
      with assms \<open>p \<noteq> NULL\<close> Some r show ?thesis
        by (auto simp: RemoveDimmFromList_def)
    qed
  qed
qed

lemma RemoveDimmFromList_count_less:
  assumes "RemoveDimmFromList (Some l) (Some n) p = Some (rc, Some l', Some n')"
    and "p \<noteq> NULL" and "j < unat n" and "l ! j = p"
  shows "n' < n"
proof (cases "find_dimm l n p 0")
  case None
  with assms show ?thesis by (simp add: RemoveDimmFromList_def)
next
  case (Some r)
  obtain found idx where r: "r = (found, idx)" by (cases r)
  show ?thesis
  proof (cases found)
    case True
    with Some r have "idx < n" by (auto dest: find_dimm_found_bound)
    then have "n \<noteq> 0" by auto
    then have "n - 1 < n" by (simp add: word_less_nat_alt unat_minus_one unat_gt_0)
    with assms Some r True show ?thesis
      by (auto simp: RemoveDimmFromList_def split: option.splits)
  next
    case False
    with Some r have "find_dimm l n p 0 = Some (False, idx)" by simp
    from find_dimm_not_found [OF this, of j] assms(3,4) show ?thesis by simp
  qed
qed

lemma remove_each_count_le:
  "remove_each l n arr k i = Some (l', n') \<Longrightarrow> n' \<le> n"
proof (induction l n arr k i rule: remove_each.induct)
  case (1 l n arr k i)
  show ?case
  proof (cases "i < k")
    case True
    from 1(2) True obtain rc l1 n1 where
      inb: "unat i < length arr" and
      r: "RemoveDimmFromList (Some l) (Some n) (arr ! unat i) = Some (rc, Some l1, Some n1)" and
      rest: "remove_each l1 n1 arr k (i + 1) = Some (l', n')"
      by (subst (asm) remove_each.simps) (auto split: if_splits option.splits)
    have "n' \<le> n1" using 1(1) [OF True inb r refl refl refl refl rest] .
    moreover have "n1 \<le> n" using r by (rule RemoveDimmFromList_count_le)
    ultimately show ?thesis by simp
  next
    case False
    with 1(2) show ?thesis by (subst (asm) remove_each.simps) simp
  qed
qed

lemma remove_each_progress:
  assumes run: "remove_each l n arr k 0 = Some (l', n')"
    and "k \<noteq> 0" and "arr ! 0 \<noteq> NULL" and "j < unat n" and "l ! j = arr ! 0"
  shows "n' < n"
proof -
  have pos: "(0::UINT32) < k" using assms(2) by (simp add: word_gt_0)
  from run pos obtain rc l1 n1 where
    r: "RemoveDimmFromList (Some l) (Some n) (arr ! 0) = Some (rc, Some l1, Some n1)" and
    rest: "remove_each l1 n1 arr k (0 + 1) = Some (l', n')"
    by (subst (asm) remove_each.simps) (auto split: if_splits option.splits)
  have "n1 < n" using r assms(3,4,5) by (rule RemoveDimmFromList_count_less)
  moreover have "n' \<le> n1" using rest by (rule remove_each_count_le)
  ultimately show ?thesis by simp
qed

section \<open>Properties of the pattern matcher and the selector\<close>

text \<open>
  The vocabulary of the statements below. The slot index of the DIMM a pointer refers
  to is \<open>DIMM_LOCATION\<close> of its two fields, as \<open>match_scan\<close> computes it.
\<close>

definition slot_of :: "dimm_store \<Rightarrow> dimm_ptr \<Rightarrow> nat" where
  "slot_of h p =
     (case deref h p of None \<Rightarrow> 0 | Some d \<Rightarrow> unat (DIMM_LOCATION (ImcId d) (ChannelId d)))"

text \<open>
  A pointer the scan may follow: it refers to a DIMM of the store, and the slot index
  of that DIMM is one for which both shifts of the macros are defined.
\<close>

definition valid_dimm :: "dimm_store \<Rightarrow> dimm_ptr \<Rightarrow> bool" where
  "valid_dimm h p = (deref h p \<noteq> None \<and> slot_of h p < 31)"

text \<open>The pattern names the slot of the DIMM.\<close>

definition named_by :: "dimm_store \<Rightarrow> UINT32 \<Rightarrow> dimm_ptr \<Rightarrow> bool" where
  "named_by h pat p = bit pat (slot_of h p)"

text \<open>\<open>DimmsNotFound\<close> after \<open>CLEAR_DIMM\<close> for each DIMM of a list.\<close>

definition clear_slots :: "dimm_store \<Rightarrow> dimm_ptr list \<Rightarrow> UINT32 \<Rightarrow> UINT32" where
  "clear_slots h ps w = fold (\<lambda>p m. m AND NOT (push_bit (slot_of h p) 1)) ps w"

lemma populated_iff_bit:
  fixes w :: UINT32
  shows "(drop_bit s w AND 1 \<noteq> 0) = bit w s"
  by (simp add: and_one_eq bit_iff_odd_drop_bit odd_iff_mod_2_eq_one)

lemma bit_clear_one:
  fixes w :: UINT32
  shows "bit (w AND NOT (push_bit s 1)) j \<longleftrightarrow> bit w j \<and> j \<noteq> s"
  by (auto simp: bit_simps dest: bit_imp_le_length)

lemma bit_clear_slots:
  "bit (clear_slots h ps w) j \<longleftrightarrow> bit w j \<and> j \<notin> slot_of h ` set ps"
proof (induction ps arbitrary: w)
  case Nil
  then show ?case by (simp add: clear_slots_def)
next
  case (Cons p ps)
  have "clear_slots h (p # ps) w = clear_slots h ps (w AND NOT (push_bit (slot_of h p) 1))"
    by (simp add: clear_slots_def)
  then show ?case
    using Cons.IH [of "w AND NOT (push_bit (slot_of h p) 1)"]
    by (simp only: bit_clear_one) auto
qed

lemma match_scan_filter:
  assumes cap: "unat n \<le> length l"
    and valid: "\<forall>p\<in>set (take (unat n) l). valid_dimm h p"
  shows "i \<le> unat n \<Longrightarrow> u \<le> i \<Longrightarrow> unat n \<le> length buf \<Longrightarrow>
    match_scan h l n pat (of_nat i) buf (of_nat u) nf =
      Some (take u buf @ filter (named_by h pat) (drop i (take (unat n) l))
              @ drop (u + length (filter (named_by h pat) (drop i (take (unat n) l)))) buf,
            of_nat (u + length (filter (named_by h pat) (drop i (take (unat n) l)))),
            clear_slots h (filter (named_by h pat) (drop i (take (unat n) l))) nf)"
proof (induction "unat n - i" arbitrary: i u buf nf)
  case 0
  then have "i = unat n" by simp
  then have "(of_nat i :: UINT32) = n" by simp
  then have "\<not> (of_nat i :: UINT32) < n" by simp
  then show ?case using \<open>i = unat n\<close>
    by (subst match_scan.simps) (simp add: clear_slots_def)
next
  case (Suc d)
  let ?ws = "take (unat n) l"
  from Suc.hyps(2) have ik: "i < unat n" by simp
  have b: "unat n < 2 ^ 32" by (rule unat32_bound)
  have ui: "unat (of_nat i :: UINT32) = i" using ik b by (simp add: unat_of_nat)
  have uu: "unat (of_nat u :: UINT32) = u" using ik b Suc.prems(2) by (simp add: unat_of_nat)
  have lt: "(of_nat i :: UINT32) < n" using ui ik by (simp add: word_less_nat_alt)
  have inb: "i < length l" using ik cap by simp
  have ub: "u < length buf" using Suc.prems(2,3) ik by simp
  have mem: "l ! i \<in> set ?ws"
    using ik inb by (auto simp: in_set_conv_nth intro!: exI [of _ i])
  then have v: "valid_dimm h (l ! i)" using valid by blast
  then obtain dm where dm: "deref h (l ! i) = Some dm" by (auto simp: valid_dimm_def)
  let ?s = "DIMM_LOCATION (ImcId dm) (ChannelId dm)"
  have s: "unat ?s = slot_of h (l ! i)" using dm by (simp add: slot_of_def)
  have s31: "unat ?s < 31" using v s by (simp add: valid_dimm_def)
  have pop: "DIMM_POPULATED pat ?s = Some (drop_bit (unat ?s) pat AND 1)"
    using s31 by (simp add: DIMM_POPULATED_def)
  have clr: "CLEAR_DIMM nf ?s = Some (nf AND NOT (push_bit (unat ?s) 1))"
    using s31 by (simp add: CLEAR_DIMM_def)
  have nb: "named_by h pat (l ! i) = (drop_bit (unat ?s) pat AND 1 \<noteq> 0)"
    by (simp add: named_by_def populated_iff_bit s)
  have dr: "drop i ?ws = l ! i # drop (Suc i) ?ws"
    using ik inb by (simp add: Cons_nth_drop_Suc [symmetric])
  have d': "d = unat n - Suc i" using Suc.hyps(2) by simp
  have sk: "Suc i \<le> unat n" using ik by simp
  let ?sel = "filter (named_by h pat) (drop (Suc i) ?ws)"
  show ?case
  proof (cases "named_by h pat (l ! i)")
    case True
    let ?buf1 = "buf[u := l ! i]"
    have su: "Suc u \<le> Suc i" using Suc.prems(2) by simp
    have len1: "unat n \<le> length ?buf1" using Suc.prems(3) by simp
    have IH: "match_scan h l n pat (of_nat (Suc i)) ?buf1 (of_nat (Suc u))
                (nf AND NOT (push_bit (unat ?s) 1)) =
      Some (take (Suc u) ?buf1 @ ?sel @ drop (Suc u + length ?sel) ?buf1,
            of_nat (Suc u + length ?sel),
            clear_slots h ?sel (nf AND NOT (push_bit (unat ?s) 1)))"
      using Suc.hyps(1) [OF d' sk su len1] .
    have step: "match_scan h l n pat (of_nat i) buf (of_nat u) nf =
        match_scan h l n pat (of_nat i + 1) ?buf1 (of_nat u + 1)
          (nf AND NOT (push_bit (unat ?s) 1))"
      using lt inb ui uu dm pop clr True nb ub
      by (subst match_scan.simps) (simp add: Let_def)
    have e1: "take (Suc u) ?buf1 = take u buf @ [l ! i]"
      using ub by (simp add: take_Suc_conv_app_nth)
    have e2: "drop (Suc u + length ?sel) ?buf1 = drop (Suc u + length ?sel) buf"
      by simp
    have e3: "clear_slots h (l ! i # ?sel) nf =
        clear_slots h ?sel (nf AND NOT (push_bit (unat ?s) 1))"
      by (simp add: clear_slots_def s)
    show ?thesis
      using step IH e1 e2 e3 dr True by (simp add: add.commute)
  next
    case False
    have IH: "match_scan h l n pat (of_nat (Suc i)) buf (of_nat u) nf =
      Some (take u buf @ ?sel @ drop (u + length ?sel) buf,
            of_nat (u + length ?sel), clear_slots h ?sel nf)"
      using Suc.hyps(1) [OF d' sk _ Suc.prems(3)] Suc.prems(2) by simp
    have step: "match_scan h l n pat (of_nat i) buf (of_nat u) nf =
        match_scan h l n pat (of_nat i + 1) buf (of_nat u) nf"
      using lt inb ui dm pop False nb
      by (subst match_scan.simps) (simp add: Let_def)
    show ?thesis
      using step IH dr False by (simp add: add.commute)
  qed
qed

text \<open>
  Whenever the count is not zero, the first entry of the output array is a non-null
  pointer that stands in the scanned part of the list. This holds for every run of the
  scans that stays inside the arrays, with no assumption on the input.
\<close>

definition head_from :: "dimm_ptr list \<Rightarrow> UINT32 \<Rightarrow> dimm_ptr list \<Rightarrow> UINT32 \<Rightarrow> bool" where
  "head_from l n buf u = (u \<noteq> 0 \<longrightarrow> buf ! 0 \<noteq> NULL \<and> (\<exists>j<unat n. l ! j = buf ! 0))"

lemma match_scan_head:
  "match_scan h l n pat i buf u nf = Some (buf', u', nf') \<Longrightarrow> head_from l n buf u \<Longrightarrow>
   head_from l n buf' u'"
proof (induction h l n pat i buf u nf rule: match_scan.induct)
  case (1 h l n pat i buf u nf)
  show ?case
  proof (cases "i < n")
    case False
    with 1(3) have "buf' = buf" "u' = u" by (subst (asm) match_scan.simps, simp)+
    with 1(4) show ?thesis by simp
  next
    case True
    then have ilt: "unat i < unat n" by (simp add: word_less_nat_alt)
    from 1(3) True obtain d pop where
      inb: "unat i < length l" and d: "deref h (l ! unat i) = Some d" and
      pop: "DIMM_POPULATED pat (DIMM_LOCATION (ImcId d) (ChannelId d)) = Some pop"
      by (subst (asm) match_scan.simps) (auto simp: Let_def split: if_splits option.splits)
    from d have nn: "l ! unat i \<noteq> NULL" by (auto simp: deref_def split: if_splits)
    show ?thesis
    proof (cases "pop \<noteq> 0")
      case False
      with 1(3) True inb d pop have
        rest: "match_scan h l n pat (i + 1) buf u nf = Some (buf', u', nf')"
        by (subst (asm) match_scan.simps) (simp add: Let_def)
      from 1(2) [OF True inb d refl pop _ rest 1(4)] False show ?thesis by simp
    next
      case pt: True
      with 1(3) True inb d pop obtain cl where
        ub: "unat u < length buf" and
        cl: "CLEAR_DIMM nf (DIMM_LOCATION (ImcId d) (ChannelId d)) = Some cl" and
        rest: "match_scan h l n pat (i + 1) (buf[unat u := l ! unat i]) (u + 1) cl
                 = Some (buf', u', nf')"
        by (subst (asm) match_scan.simps) (auto simp: Let_def split: if_splits option.splits)
      have "head_from l n (buf[unat u := l ! unat i]) (u + 1)"
      proof (cases "u = 0")
        case True
        then show ?thesis using ub nn ilt by (auto simp: head_from_def)
      next
        case False
        then have "unat u \<noteq> 0" by (simp add: unat_eq_0)
        then show ?thesis using False 1(4) by (auto simp: head_from_def)
      qed
      from 1(1) [OF True inb d refl pop pt ub cl rest this] show ?thesis .
    qed
  qed
qed

lemma GetDimms_head:
  assumes "GetDimmsFromListMatchingInterleaveSet h (Some l) n pat (Some buf) (Some u)
             = Some (rc, Some buf', Some u')"
    and "head_from l n buf u"
  shows "head_from l n buf' u'"
proof -
  from assms(1) obtain b1 u1 nf1 where
    m: "match_scan h l n pat 0 buf u pat = Some (b1, u1, nf1)" and
    r: "buf' = b1" "u' = (if nf1 \<noteq> 0 then 0 else u1)"
    by (auto simp: GetDimmsFromListMatchingInterleaveSet_def split: option.splits)
  from match_scan_head [OF m assms(2)] r show ?thesis
    by (auto simp: head_from_def)
qed

lemma table_scan_head:
  "table_scan h l n i buf u = Some (buf', u', i') \<Longrightarrow> head_from l n buf u \<Longrightarrow>
   head_from l n buf' u'"
proof (induction h l n i buf u rule: table_scan.induct)
  case (1 h l n i buf u)
  show ?case
  proof (cases "u = 0 \<and> INTERLEAVE_SETS ! unat i \<noteq> END_OF_INTERLEAVE_SETS")
    case False
    with 1(2) have "buf' = buf \<and> u' = u"
      by (subst (asm) table_scan.simps) (auto split: if_splits)
    with 1(3) show ?thesis by simp
  next
    case True
    with 1(2) obtain rc b1 u1 where
      inb: "unat i < length INTERLEAVE_SETS" and
      g: "GetDimmsFromListMatchingInterleaveSet h (Some l) n (INTERLEAVE_SETS ! unat i)
            (Some buf) (Some u) = Some (rc, Some b1, Some u1)" and
      rest: "table_scan h l n (i + 1) b1 u1 = Some (buf', u', i')"
      by (subst (asm) table_scan.simps) (auto split: if_splits option.splits)
    have "head_from l n b1 u1" using g 1(3) by (rule GetDimms_head)
    from 1(1) [OF _ inb _ g refl refl refl refl rest this] True show ?thesis by simp
  qed
qed

lemma FindBest_head:
  assumes "FindBestInterleavingForDimms h (Some l) n (Some buf) (Some 0)
             = Some (EFI_SUCCESS, Some buf', Some u')"
  shows "u' \<noteq> 0 \<and> buf' ! 0 \<noteq> NULL \<and> (\<exists>j<unat n. l ! j = buf' ! 0)"
proof -
  from assms obtain i' where
    t: "table_scan h l n 0 buf 0 = Some (buf', u', i')" and nz: "u' \<noteq> 0"
    by (auto simp: FindBestInterleavingForDimms_def split: option.splits if_splits)
  have "head_from l n buf 0" by (simp add: head_from_def)
  from table_scan_head [OF t this] nz show ?thesis by (simp add: head_from_def)
qed

text \<open>The slots a pattern names, in increasing order.\<close>

definition pattern_slots :: "UINT32 \<Rightarrow> nat list" where
  "pattern_slots pat = filter (bit pat) [0..<32]"

text \<open>Every slot the pattern names is the slot of some DIMM of the list.\<close>

definition fully_populated :: "dimm_store \<Rightarrow> UINT32 \<Rightarrow> dimm_ptr list \<Rightarrow> bool" where
  "fully_populated h pat ws = (\<forall>i\<in>set (pattern_slots pat). i \<in> slot_of h ` set ws)"

lemma fully_populated_iff:
  "fully_populated h pat ws \<longleftrightarrow> (\<forall>i. bit pat i \<longrightarrow> (\<exists>p\<in>set ws. slot_of h p = i))"
proof -
  have "bit pat i \<longleftrightarrow> i < 32 \<and> bit pat i" for i
    using bit_imp_le_length [of pat i] by auto
  then have "set (pattern_slots pat) = {i. bit pat i}"
    by (auto simp: pattern_slots_def)
  then show ?thesis
    by (auto simp: fully_populated_def)
qed

text \<open>The DIMMs of a list whose slot the pattern names, in list order.\<close>

definition matched :: "dimm_store \<Rightarrow> UINT32 \<Rightarrow> dimm_ptr list \<Rightarrow> dimm_ptr list" where
  "matched h pat ws = filter (named_by h pat) ws"

lemma clear_matched_zero:
  "clear_slots h (matched h pat ws) pat = 0 \<longleftrightarrow> fully_populated h pat ws"
proof -
  have "bit (clear_slots h (matched h pat ws) pat) j \<longleftrightarrow>
          bit pat j \<and> \<not> (\<exists>p\<in>set ws. slot_of h p = j)" for j
    by (auto simp: bit_clear_slots matched_def named_by_def)
  moreover have "w = 0 \<longleftrightarrow> (\<forall>j. \<not> bit w j)" for w :: UINT32
    using bit_eq_iff [of w 0] by (auto dest: bit_imp_le_length)
  ultimately show ?thesis
    by (auto simp: fully_populated_iff)
qed

lemma matched_nonempty:
  "fully_populated h pat ws \<Longrightarrow> pat \<noteq> 0 \<Longrightarrow> matched h pat ws \<noteq> []"
proof -
  assume fp: "fully_populated h pat ws" and nz: "pat \<noteq> 0"
  from nz obtain i where i: "bit pat i" by (auto simp: bit_eq_iff)
  with fp obtain p where "p \<in> set ws" "slot_of h p = i" by (auto simp: fully_populated_iff)
  with i have "p \<in> set (matched h pat ws)" by (simp add: matched_def named_by_def)
  then show ?thesis by auto
qed

lemma GetDimms_matched:
  assumes "unat n \<le> length l" "unat n \<le> length buf"
    and "\<forall>p\<in>set (take (unat n) l). valid_dimm h p"
  shows "GetDimmsFromListMatchingInterleaveSet h (Some l) n pat (Some buf) (Some 0) =
     Some (EFI_SUCCESS,
           Some (matched h pat (take (unat n) l)
                   @ drop (length (matched h pat (take (unat n) l))) buf),
           Some (if fully_populated h pat (take (unat n) l)
                 then of_nat (length (matched h pat (take (unat n) l))) else 0))"
proof -
  have "match_scan h l n pat (of_nat 0) buf (of_nat 0) pat =
      Some (take 0 buf @ filter (named_by h pat) (drop 0 (take (unat n) l))
              @ drop (0 + length (filter (named_by h pat) (drop 0 (take (unat n) l)))) buf,
            of_nat (0 + length (filter (named_by h pat) (drop 0 (take (unat n) l)))),
            clear_slots h (filter (named_by h pat) (drop 0 (take (unat n) l))) pat)"
    using assms(1,3) _ _ assms(2) by (rule match_scan_filter) simp_all
  then have "match_scan h l n pat 0 buf 0 pat =
      Some (matched h pat (take (unat n) l)
              @ drop (length (matched h pat (take (unat n) l))) buf,
            of_nat (length (matched h pat (take (unat n) l))),
            clear_slots h (matched h pat (take (unat n) l)) pat)"
    by (simp add: matched_def)
  then show ?thesis
    using clear_matched_zero [of h pat "take (unat n) l"]
    by (simp add: GetDimmsFromListMatchingInterleaveSet_def)
qed

lemma matched_length_le: "length (matched h pat ws) \<le> length ws"
  by (simp add: matched_def)

text \<open>The table without its sentinel.\<close>

definition patterns :: "UINT32 list" where
  "patterns = butlast INTERLEAVE_SETS"

lemma table_split: "INTERLEAVE_SETS = patterns @ [END_OF_INTERLEAVE_SETS]"
  by (simp add: patterns_def INTERLEAVE_SETS_def)

lemma length_patterns: "length patterns = 21"
  by (simp add: patterns_def INTERLEAVE_SETS_def)

lemma patterns_nonzero: "pat \<in> set patterns \<Longrightarrow> pat \<noteq> 0"
  by (auto simp: patterns_def INTERLEAVE_SETS_def)

lemma table_scan_first:
  assumes "unat n \<le> length l"
    and "\<forall>p\<in>set (take (unat n) l). valid_dimm h p"
  shows "t \<le> 21 \<Longrightarrow> unat n \<le> length buf \<Longrightarrow>
    \<exists>buf' i'. length buf' = length buf \<and> unat i' \<le> 21 \<and>
      (case List.find (\<lambda>pat. fully_populated h pat (take (unat n) l)) (drop t patterns) of
         None \<Rightarrow> table_scan h l n (of_nat t) buf 0 = Some (buf', 0, i')
       | Some pat \<Rightarrow>
           table_scan h l n (of_nat t) buf 0 =
             Some (buf', of_nat (length (matched h pat (take (unat n) l))), i')
           \<and> take (length (matched h pat (take (unat n) l))) buf'
               = matched h pat (take (unat n) l)
           \<and> matched h pat (take (unat n) l) \<noteq> []
           \<and> pat \<in> set patterns)"
proof (induction "21 - t" arbitrary: t buf)
  case 0
  then have t: "t = 21" by simp
  have "INTERLEAVE_SETS ! 21 = END_OF_INTERLEAVE_SETS"
    by (simp add: INTERLEAVE_SETS_def)
  then have "table_scan h l n (of_nat t) buf 0 = Some (buf, 0, 21)"
    using t by (subst table_scan.simps) (simp add: INTERLEAVE_SETS_def)
  then show ?case using t length_patterns by auto
next
  case (Suc d)
  let ?ws = "take (unat n) l"
  from Suc.hyps(2) have t: "t < 21" by simp
  then have ut: "unat (of_nat t :: UINT32) = t" by (simp add: unat_of_nat)
  let ?pat = "patterns ! t"
  have pt: "INTERLEAVE_SETS ! t = ?pat"
    using t by (simp add: table_split nth_append length_patterns)
  have pin: "?pat \<in> set patterns" using t by (simp add: length_patterns)
  then have pnz: "?pat \<noteq> 0" by (rule patterns_nonzero)
  have dr: "drop t patterns = ?pat # drop (Suc t) patterns"
    using t by (simp add: Cons_nth_drop_Suc length_patterns)
  let ?sel = "matched h ?pat ?ws"
  let ?buf1 = "?sel @ drop (length ?sel) buf"
  have sl: "length ?sel \<le> unat n" using matched_length_le [of h ?pat ?ws] by simp
  have len1: "length ?buf1 = length buf" using sl Suc.prems(2) by simp
  have g: "GetDimmsFromListMatchingInterleaveSet h (Some l) n (INTERLEAVE_SETS ! t)
             (Some buf) (Some 0) =
           Some (EFI_SUCCESS, Some ?buf1,
             Some (if fully_populated h ?pat ?ws then of_nat (length ?sel) else 0))"
    using GetDimms_matched [OF assms(1) Suc.prems(2) assms(2)] pt by simp
  have step: "table_scan h l n (of_nat t) buf 0 =
      table_scan h l n (of_nat t + 1) ?buf1
        (if fully_populated h ?pat ?ws then of_nat (length ?sel) else 0)"
    using t ut pt pnz g
    by (subst table_scan.simps) (simp add: INTERLEAVE_SETS_def END_OF_INTERLEAVE_SETS_def)
  show ?case
  proof (cases "fully_populated h ?pat ?ws")
    case True
    then have ne: "?sel \<noteq> []" using pnz by (rule matched_nonempty)
    have "length ?sel < 2 ^ 32" using sl unat32_bound [of n] by simp
    then have "unat (of_nat (length ?sel) :: UINT32) = length ?sel" by (simp add: unat_of_nat)
    then have nz: "(of_nat (length ?sel) :: UINT32) \<noteq> 0" using ne by auto
    have "table_scan h l n (of_nat t + 1) ?buf1 (of_nat (length ?sel)) =
            Some (?buf1, of_nat (length ?sel), of_nat t + 1)"
      using nz by (subst table_scan.simps) simp
    moreover have "(of_nat t :: UINT32) < 21"
      using t ut by (simp add: word_less_nat_alt)
    then have "unat (of_nat t + 1 :: UINT32) \<le> 21"
      using unat_succ_below [of "of_nat t :: UINT32" 21] t ut by simp
    ultimately show ?thesis using True step dr len1 ne pin by auto
  next
    case False
    have d': "d = 21 - Suc t" using Suc.hyps(2) by simp
    have st: "Suc t \<le> 21" using t by simp
    have cap1: "unat n \<le> length ?buf1" using len1 Suc.prems(2) by simp
    from Suc.hyps(1) [OF d' st cap1] obtain buf' i' where
      ih: "length buf' = length ?buf1" "unat i' \<le> 21"
        "(case List.find (\<lambda>pat. fully_populated h pat ?ws) (drop (Suc t) patterns) of
           None \<Rightarrow> table_scan h l n (of_nat (Suc t)) ?buf1 0 = Some (buf', 0, i')
         | Some pat \<Rightarrow>
             table_scan h l n (of_nat (Suc t)) ?buf1 0 =
               Some (buf', of_nat (length (matched h pat ?ws)), i')
             \<and> take (length (matched h pat ?ws)) buf' = matched h pat ?ws
             \<and> matched h pat ?ws \<noteq> [] \<and> pat \<in> set patterns)"
      by blast
    have step': "table_scan h l n (of_nat t) buf 0 = table_scan h l n (of_nat (Suc t)) ?buf1 0"
      using step False by (simp add: add.commute)
    show ?thesis
      using ih len1 False dr step'
      by (intro exI [of _ buf'] exI [of _ i']) (simp split: option.splits)
  qed
qed

section \<open>Goal synthesis orchestrator\<close>

text \<open>
  Modelled from the spec: \<open>CopyMem_S\<close> is a library routine that is not in Interleave.c.
  The call copies \<open>DimmsNum\<close> pointers from \<open>pDimms\<close> to the start of \<open>pDimmsCopy\<close>
  (``copy the full input DIMM list into the working list''); both size arguments are
  the size of \<open>DimmsNum\<close> pointers, so nothing keeps the copy inside either array.
\<close>

definition CopyMem_S :: "dimm_ptr list \<Rightarrow> dimm_ptr list \<Rightarrow> nat \<Rightarrow> dimm_ptr list option" where
  "CopyMem_S dest src entries =
     (if entries \<le> length dest \<and> entries \<le> length src
      then Some (take entries src @ drop entries dest) else None)"

text \<open>
  \<open>CreateRegionGoal\<close> is the external collaborator (Region.h); the model takes it as a
  parameter. It receives the template, the array \<open>pDimmsInterleaved\<close>, \<open>DimmsUsed\<close>, the
  capacity share, the preferences, the sequence index, the value at
  \<open>pInterleaveSetIndex\<close> and its own state; it returns the goal pointer (\<open>None\<close> for
  \<open>NULL\<close>), the new value at \<open>pInterleaveSetIndex\<close> and its new state. It is taken not
  to write to the array \<open>pDimmsInterleaved\<close> nor to the caller's goal array and count.
\<close>

type_synonym ('t, 'p, 'g, 's) goal_maker =
  "'t \<Rightarrow> dimm_ptr list \<Rightarrow> UINT32 \<Rightarrow> UINT64 \<Rightarrow> 'p option \<Rightarrow> UINT16 \<Rightarrow> UINT16 \<Rightarrow> 's
     \<Rightarrow> 'g option \<times> UINT16 \<times> 's"

text \<open>
  One entry per call of \<open>CreateRegionGoal\<close>: the DIMMs the call designates (the first
  \<open>DimmsUsed\<close> entries of \<open>pDimmsInterleaved\<close>), \<open>DimmsUsed\<close> and the capacity share.
\<close>

record goal_call =
  CallDimms :: "dimm_ptr list"
  CallDimmsNum :: UINT32
  CallSize :: UINT64

text \<open>
  The variables of \<open>PerformInterleavingAndCreateGoal\<close> at the head of its loop: the two
  local arrays, the two local counters, what the three in-out pointers of the caller
  point to, the collaborator's state, and the log of calls made so far. \<open>DimmsUsed\<close> is
  zero at the head of every iteration (initialised to zero, reset at the end of the
  body), so it is local to the iteration.
\<close>

record ('g, 's) grouping =
  pDimmsCopy :: "dimm_ptr list"
  pDimmsInterleaved :: "dimm_ptr list"
  RemainingDimms :: UINT32
  TotalDimmsUsed :: UINT32
  RegionGoals :: "'g option list"
  NewRegionsGoalNum :: UINT32
  InterleaveSetIndex :: UINT16
  Collaborator :: 's
  Calls :: "goal_call list"

datatype 'a iteration = Finish EFI_STATUS 'a | Continue 'a

text \<open>The body of the \<open>while (RemainingDimms > 0)\<close> loop.\<close>

definition grouping_iteration ::
  "dimm_store \<Rightarrow> ('t, 'p, 'g, 's) goal_maker \<Rightarrow> 't \<Rightarrow> UINT32 \<Rightarrow> UINT64 \<Rightarrow> 'p option \<Rightarrow> UINT16 \<Rightarrow>
     ('g, 's) grouping \<Rightarrow> ('g, 's) grouping iteration option" where
  "grouping_iteration h CreateRegionGoal RegionGoalTemplate DimmsNum InterleaveSetSize
       pDriverPreferences SequenceIndex st =
     (case FindBestInterleavingForDimms h (Some (pDimmsCopy st)) (RemainingDimms st)
             (Some (pDimmsInterleaved st)) (Some 0) of
        Some (ReturnCode, Some buf, Some DimmsUsed) \<Rightarrow>
          if EFI_ERROR ReturnCode then
            Some (Finish ReturnCode (st\<lparr>pDimmsInterleaved := buf\<rparr>))
          else
            (case RemoveDimmArrayFromList (Some (pDimmsCopy st)) (Some (RemainingDimms st))
                    (Some buf) DimmsUsed of
               Some (RemoveCode, Some l, Some n) \<Rightarrow>
                 let st1 = st\<lparr>pDimmsInterleaved := buf, pDimmsCopy := l, RemainingDimms := n,
                              TotalDimmsUsed := TotalDimmsUsed st + DimmsUsed\<rparr>
                 in
                 if TotalDimmsUsed st1 > DimmsNum then Some (Finish EFI_BAD_BUFFER_SIZE st1)
                 else if unat (NewRegionsGoalNum st1) < length (RegionGoals st1) then
                   (case CreateRegionGoal RegionGoalTemplate buf DimmsUsed
                           (InterleaveSetSize * ucast DimmsUsed div ucast DimmsNum)
                           pDriverPreferences SequenceIndex (InterleaveSetIndex st1)
                           (Collaborator st1) of
                      (goal, index, collaborator) \<Rightarrow>
                        let st2 = st1\<lparr>RegionGoals :=
                                        (RegionGoals st1)[unat (NewRegionsGoalNum st1) := goal],
                                      InterleaveSetIndex := index,
                                      Collaborator := collaborator,
                                      Calls := Calls st1 @
                                        [\<lparr>CallDimms = take (unat DimmsUsed) buf,
                                          CallDimmsNum = DimmsUsed,
                                          CallSize = InterleaveSetSize * ucast DimmsUsed
                                                       div ucast DimmsNum\<rparr>]\<rparr>
                        in
                        if goal = None then Some (Finish EFI_OUT_OF_RESOURCES st2)
                        else Some (Continue (st2\<lparr>NewRegionsGoalNum := NewRegionsGoalNum st2 + 1\<rparr>)))
                 else None
             | _ \<Rightarrow> None)
      | _ \<Rightarrow> None)"

lemma grouping_iteration_removes:
  assumes "grouping_iteration h mk tmpl num sz prefs seq st = Some (Continue st')"
  shows "RemainingDimms st' < RemainingDimms st"
proof -
  from assms obtain rc buf used where
    f: "FindBestInterleavingForDimms h (Some (pDimmsCopy st)) (RemainingDimms st)
          (Some (pDimmsInterleaved st)) (Some 0) = Some (rc, Some buf, Some used)"
    by (auto simp: grouping_iteration_def split: option.splits)
  with assms have ok: "rc = EFI_SUCCESS"
    by (auto simp: grouping_iteration_def EFI_ERROR_def split: if_splits)
  from assms f ok obtain rc2 l n where
    r: "RemoveDimmArrayFromList (Some (pDimmsCopy st)) (Some (RemainingDimms st)) (Some buf) used
          = Some (rc2, Some l, Some n)"
    by (auto simp: grouping_iteration_def EFI_ERROR_def split: option.splits)
  with assms f ok have n: "RemainingDimms st' = n"
    by (auto simp: grouping_iteration_def EFI_ERROR_def Let_def split: if_splits prod.splits)
  from r have e: "remove_each (pDimmsCopy st) (RemainingDimms st) buf used 0 = Some (l, n)"
    by (auto simp: RemoveDimmArrayFromList_def split: option.splits)
  from FindBest_head [OF f [unfolded ok]] obtain j where
    "used \<noteq> 0" "buf ! 0 \<noteq> NULL" "j < unat (RemainingDimms st)" "pDimmsCopy st ! j = buf ! 0"
    by blast
  with e have "n < RemainingDimms st" by (rule remove_each_progress)
  with n show ?thesis by simp
qed

text \<open>The loop itself. It stops at the first \<open>goto Finish\<close>.\<close>

function grouping_loop ::
  "dimm_store \<Rightarrow> ('t, 'p, 'g, 's) goal_maker \<Rightarrow> 't \<Rightarrow> UINT32 \<Rightarrow> UINT64 \<Rightarrow> 'p option \<Rightarrow> UINT16 \<Rightarrow>
     ('g, 's) grouping \<Rightarrow> (EFI_STATUS \<times> ('g, 's) grouping) option" where
  "grouping_loop h CreateRegionGoal RegionGoalTemplate DimmsNum InterleaveSetSize
       pDriverPreferences SequenceIndex st =
     (if RemainingDimms st > 0 then
        (case grouping_iteration h CreateRegionGoal RegionGoalTemplate DimmsNum
                InterleaveSetSize pDriverPreferences SequenceIndex st of
           None \<Rightarrow> None
         | Some (Finish ReturnCode st') \<Rightarrow> Some (ReturnCode, st')
         | Some (Continue st') \<Rightarrow>
             grouping_loop h CreateRegionGoal RegionGoalTemplate DimmsNum InterleaveSetSize
               pDriverPreferences SequenceIndex st')
      else Some (EFI_SUCCESS, st))"
  by pat_completeness auto
termination
  by (relation "measure (\<lambda>(h, mk, tmpl, num, sz, prefs, seq, st). unat (RemainingDimms st))")
     (auto simp: word_less_nat_alt [symmetric] dest: grouping_iteration_removes)

declare grouping_loop.simps [simp del]

text \<open>
  What the caller sees when \<open>PerformInterleavingAndCreateGoal\<close> returns: the status,
  the contents of the three in-out parameters (\<open>None\<close> for a null pointer), the
  collaborator's state and the calls it received.
\<close>

record ('g, 's) outcome =
  Status :: EFI_STATUS
  GoalArray :: "'g option list option"
  GoalNum :: "UINT32 option"
  SetIndex :: "UINT16 option"
  CollaboratorState :: 's
  CallLog :: "goal_call list"

text \<open>
  \<open>MAX_DIMMS\<close> (the capacity of the two local arrays) is defined in a header that is
  not part of Interleave.c; the model takes it as a parameter. \<open>ZeroMem\<close> fills both
  arrays with null pointers.
\<close>

definition PerformInterleavingAndCreateGoal ::
  "nat \<Rightarrow> dimm_store \<Rightarrow> ('t, 'p, 'g, 's) goal_maker \<Rightarrow>
     't option \<Rightarrow> dimm_ptr list option \<Rightarrow> UINT32 \<Rightarrow> UINT64 \<Rightarrow> 'p option \<Rightarrow> UINT16 \<Rightarrow>
     'g option list option \<Rightarrow> UINT32 option \<Rightarrow> UINT16 option \<Rightarrow> 's \<Rightarrow>
     ('g, 's) outcome option" where
  "PerformInterleavingAndCreateGoal MAX_DIMMS h CreateRegionGoal pRegionGoalTemplate pDimms
       DimmsNum InterleaveSetSize pDriverPreferences SequenceIndex pRegionGoal
       pNewRegionsGoalNum pInterleaveSetIndex collaborator =
     (if pRegionGoalTemplate = None \<or> pRegionGoal = None \<or> pNewRegionsGoalNum = None \<or>
         pDimms = None \<or> pInterleaveSetIndex = None then
        Some \<lparr>Status = EFI_INVALID_PARAMETER, GoalArray = pRegionGoal,
              GoalNum = pNewRegionsGoalNum, SetIndex = pInterleaveSetIndex,
              CollaboratorState = collaborator, CallLog = []\<rparr>
      else if InterleaveSetSize = 0 then
        Some \<lparr>Status = EFI_SUCCESS, GoalArray = pRegionGoal,
              GoalNum = pNewRegionsGoalNum, SetIndex = pInterleaveSetIndex,
              CollaboratorState = collaborator, CallLog = []\<rparr>
      else
        (case (if DimmsNum > 0
               then CopyMem_S (replicate MAX_DIMMS NULL) (the pDimms) (unat DimmsNum)
               else Some (replicate MAX_DIMMS NULL)) of
           None \<Rightarrow> None
         | Some copy \<Rightarrow>
             (case grouping_loop h CreateRegionGoal (the pRegionGoalTemplate) DimmsNum
                     InterleaveSetSize pDriverPreferences SequenceIndex
                     \<lparr>pDimmsCopy = copy,
                      pDimmsInterleaved = replicate MAX_DIMMS NULL,
                      RemainingDimms = DimmsNum,
                      TotalDimmsUsed = 0,
                      RegionGoals = the pRegionGoal,
                      NewRegionsGoalNum = the pNewRegionsGoalNum,
                      InterleaveSetIndex = the pInterleaveSetIndex,
                      Collaborator = collaborator,
                      Calls = []\<rparr> of
                None \<Rightarrow> None
              | Some (ReturnCode, st) \<Rightarrow>
                  Some \<lparr>Status = ReturnCode, GoalArray = Some (RegionGoals st),
                        GoalNum = Some (NewRegionsGoalNum st),
                        SetIndex = Some (InterleaveSetIndex st),
                        CollaboratorState = Collaborator st, CallLog = Calls st\<rparr>)))"

section \<open>The loop invariant\<close>

lemma mset_fold_remove1: "mset (fold remove1 xs ws) = mset ws - mset xs"
  by (induction xs arbitrary: ws) simp_all

lemma mset_matched_subset: "mset (matched h pat ws) \<subseteq># mset ws"
  by (simp add: matched_def)

lemma unat_of_length:
  "k \<le> unat (n :: UINT32) \<Longrightarrow> unat (of_nat k :: UINT32) = k"
  using unat32_bound [of n] by (simp add: unat_of_nat)

lemma valid_dimm_not_null: "valid_dimm h p \<Longrightarrow> p \<noteq> NULL"
  by (auto simp: valid_dimm_def deref_def split: if_splits)

text \<open>The working list: the first \<open>RemainingDimms\<close> entries of \<open>pDimmsCopy\<close>.\<close>

definition working :: "('g, 's) grouping \<Rightarrow> dimm_ptr list" where
  "working st = take (unat (RemainingDimms st)) (pDimmsCopy st)"

text \<open>The fourth argument of \<open>CreateRegionGoal\<close>, in \<open>UINT64\<close> arithmetic.\<close>

definition share_of :: "UINT64 \<Rightarrow> UINT32 \<Rightarrow> UINT32 \<Rightarrow> UINT64" where
  "share_of InterleaveSetSize DimmsUsed DimmsNum =
     InterleaveSetSize * ucast DimmsUsed div ucast DimmsNum"

text \<open>
  What every logged call satisfies: the group is not empty, the count passed is its
  size, and the share passed is \<open>share_of\<close> the count.
\<close>

definition good_call :: "dimm_store \<Rightarrow> UINT32 \<Rightarrow> UINT64 \<Rightarrow> goal_call \<Rightarrow> bool" where
  "good_call h DimmsNum sz c \<longleftrightarrow>
     CallDimms c \<noteq> [] \<and> unat (CallDimmsNum c) = length (CallDimms c) \<and>
     CallSize c = share_of sz (CallDimmsNum c) DimmsNum"

text \<open>
  The invariant of the \<open>while\<close> loop, for the input list \<open>input\<close>: the working list
  fits both local arrays and holds valid DIMMs; the working list and the groups passed
  so far make up the input; \<open>TotalDimmsUsed\<close> is the sum of the counts passed so far and,
  with \<open>RemainingDimms\<close>, adds up to \<open>DimmsNum\<close>; and the goal array has room for one
  goal per remaining DIMM.
\<close>

definition grouping_inv ::
  "dimm_store \<Rightarrow> dimm_ptr list \<Rightarrow> UINT32 \<Rightarrow> UINT64 \<Rightarrow> ('g, 's) grouping \<Rightarrow> bool" where
  "grouping_inv h input DimmsNum sz st \<longleftrightarrow>
     unat (RemainingDimms st) \<le> length (pDimmsCopy st) \<and>
     unat (RemainingDimms st) \<le> length (pDimmsInterleaved st) \<and>
     (\<forall>p\<in>set (working st). valid_dimm h p) \<and>
     mset (working st) + mset (concat (map CallDimms (Calls st))) = mset input \<and>
     unat (TotalDimmsUsed st) + unat (RemainingDimms st) = unat DimmsNum \<and>
     sum_list (map (\<lambda>c. unat (CallDimmsNum c)) (Calls st)) = unat (TotalDimmsUsed st) \<and>
     (\<forall>c\<in>set (Calls st). good_call h DimmsNum sz c) \<and>
     unat (NewRegionsGoalNum st) + unat (RemainingDimms st) \<le> length (RegionGoals st)"

lemma FindBest_first:
  assumes "unat n \<le> length l" "unat n \<le> length buf"
    and "\<forall>p\<in>set (take (unat n) l). valid_dimm h p"
  shows "\<exists>buf'. length buf' = length buf \<and>
      (case List.find (\<lambda>pat. fully_populated h pat (take (unat n) l)) patterns of
         None \<Rightarrow> FindBestInterleavingForDimms h (Some l) n (Some buf) (Some 0)
                   = Some (EFI_ABORTED, Some buf', Some 0)
       | Some pat \<Rightarrow>
           FindBestInterleavingForDimms h (Some l) n (Some buf) (Some 0)
             = Some (EFI_SUCCESS, Some buf',
                     Some (of_nat (length (matched h pat (take (unat n) l)))))
           \<and> take (length (matched h pat (take (unat n) l))) buf'
               = matched h pat (take (unat n) l)
           \<and> matched h pat (take (unat n) l) \<noteq> []
           \<and> pat \<in> set patterns)"
proof -
  let ?ws = "take (unat n) l"
  from table_scan_first [OF assms(1,3), of 0 buf] assms(2) obtain buf' i' where
    len: "length buf' = length buf" and
    r: "(case List.find (\<lambda>pat. fully_populated h pat ?ws) (drop 0 patterns) of
         None \<Rightarrow> table_scan h l n (of_nat 0) buf 0 = Some (buf', 0, i')
       | Some pat \<Rightarrow>
           table_scan h l n (of_nat 0) buf 0 =
             Some (buf', of_nat (length (matched h pat ?ws)), i')
           \<and> take (length (matched h pat ?ws)) buf' = matched h pat ?ws
           \<and> matched h pat ?ws \<noteq> [] \<and> pat \<in> set patterns)"
    by auto
  show ?thesis
  proof (cases "List.find (\<lambda>pat. fully_populated h pat ?ws) patterns")
    case None
    with r have "table_scan h l n 0 buf 0 = Some (buf', 0, i')" by simp
    then show ?thesis using None len
      by (intro exI [of _ buf']) (simp add: FindBestInterleavingForDimms_def)
  next
    case (Some pat)
    let ?sel = "matched h pat ?ws"
    from r Some have t: "table_scan h l n 0 buf 0 = Some (buf', of_nat (length ?sel), i')"
      and tk: "take (length ?sel) buf' = ?sel" and ne: "?sel \<noteq> []" and pin: "pat \<in> set patterns"
      by simp_all
    have "length ?sel \<le> unat n" using matched_length_le [of h pat ?ws] by simp
    then have "unat (of_nat (length ?sel) :: UINT32) = length ?sel" by (rule unat_of_length)
    then have "(of_nat (length ?sel) :: UINT32) \<noteq> 0" using ne by auto
    then show ?thesis using t tk ne pin Some len
      by (intro exI [of _ buf']) (simp add: FindBestInterleavingForDimms_def)
  qed
qed

lemma unat_succ_le: "unat (x + 1 :: UINT32) \<le> Suc (unat x)"
proof (cases "x = - 1")
  case True
  then show ?thesis by simp
next
  case False
  then have "1 + x \<noteq> 0" by (simp add: add_eq_0_iff)
  then show ?thesis using unatSuc [of x] by (simp add: add.commute)
qed

lemma grouping_iteration_inv:
  fixes st :: "('g, 's) grouping" and mk :: "('t, 'p, 'g, 's) goal_maker"
  assumes inv: "grouping_inv h input num sz st" and pos: "RemainingDimms st \<noteq> 0"
  shows "\<exists>r. grouping_iteration h mk tmpl num sz prefs seq st = Some r \<and>
     (case r of
        Finish rc st' \<Rightarrow> grouping_inv h input num sz st'
           \<and> (rc = EFI_ABORTED \<and> RemainingDimms st' \<noteq> 0 \<or> rc = EFI_OUT_OF_RESOURCES)
      | Continue st' \<Rightarrow> grouping_inv h input num sz st')"
proof -
  let ?n = "RemainingDimms st" and ?l = "pDimmsCopy st" and ?buf = "pDimmsInterleaved st"
  let ?ws = "take (unat ?n) ?l"
  from inv have capl: "unat ?n \<le> length ?l" and capb: "unat ?n \<le> length ?buf"
    and valid: "\<forall>p\<in>set ?ws. valid_dimm h p"
    and ms: "mset ?ws + mset (concat (map CallDimms (Calls st))) = mset input"
    and tot: "unat (TotalDimmsUsed st) + unat ?n = unat num"
    and sm: "sum_list (map (\<lambda>c. unat (CallDimmsNum c)) (Calls st)) = unat (TotalDimmsUsed st)"
    and gc: "\<forall>c\<in>set (Calls st). good_call h num sz c"
    and capg: "unat (NewRegionsGoalNum st) + unat ?n \<le> length (RegionGoals st)"
    by (simp_all add: grouping_inv_def working_def)
  from FindBest_first [OF capl capb valid] obtain buf' where
    len: "length buf' = length ?buf" and
    r: "(case List.find (\<lambda>pat. fully_populated h pat ?ws) patterns of
         None \<Rightarrow> FindBestInterleavingForDimms h (Some ?l) ?n (Some ?buf) (Some 0)
                   = Some (EFI_ABORTED, Some buf', Some 0)
       | Some pat \<Rightarrow>
           FindBestInterleavingForDimms h (Some ?l) ?n (Some ?buf) (Some 0)
             = Some (EFI_SUCCESS, Some buf', Some (of_nat (length (matched h pat ?ws))))
           \<and> take (length (matched h pat ?ws)) buf' = matched h pat ?ws
           \<and> matched h pat ?ws \<noteq> []
           \<and> pat \<in> set patterns)"
    by blast
  show ?thesis
  proof (cases "List.find (\<lambda>pat. fully_populated h pat ?ws) patterns")
    case None
    with r have f: "FindBestInterleavingForDimms h (Some ?l) ?n (Some ?buf) (Some 0)
                   = Some (EFI_ABORTED, Some buf', Some 0)" by simp
    have it: "grouping_iteration h mk tmpl num sz prefs seq st =
        Some (Finish EFI_ABORTED (st\<lparr>pDimmsInterleaved := buf'\<rparr>))"
      by (simp add: grouping_iteration_def f EFI_ERROR_def)
    have "grouping_inv h input num sz (st\<lparr>pDimmsInterleaved := buf'\<rparr>)"
      using inv len by (simp add: grouping_inv_def working_def)
    with it pos show ?thesis by simp
  next
    case (Some pat)
    let ?sel = "matched h pat ?ws"
    let ?used = "of_nat (length ?sel) :: UINT32"
    from r Some have
      f: "FindBestInterleavingForDimms h (Some ?l) ?n (Some ?buf) (Some 0)
             = Some (EFI_SUCCESS, Some buf', Some ?used)"
      and tk: "take (length ?sel) buf' = ?sel" and ne: "?sel \<noteq> []"
      by simp_all
    have sl: "length ?sel \<le> unat ?n" using matched_length_le [of h pat ?ws] by simp
    have uu: "unat ?used = length ?sel" using sl by (rule unat_of_length)
    have k1: "unat ?used \<le> length buf'" using uu sl capb len by simp
    have "set ?sel \<subseteq> set ?ws" by (auto simp: matched_def)
    then have k2: "\<forall>p\<in>set (take (unat ?used) buf'). p \<noteq> NULL"
      using valid tk uu by (auto dest: valid_dimm_not_null)
    let ?ws' = "fold remove1 ?sel ?ws"
    from remove_each_fold [OF k1 k2 capl, of 0] obtain l' n' where
      e: "remove_each ?l ?n buf' ?used 0 = Some (l', n')" and
      ll: "length l' = length ?l" and un: "unat n' = length ?ws'" and
      tw: "take (unat n') l' = ?ws'"
      using uu tk by auto
    have rm: "RemoveDimmArrayFromList (Some ?l) (Some ?n) (Some buf') ?used
                = Some (EFI_SUCCESS, Some l', Some n')"
      using e by (simp add: RemoveDimmArrayFromList_def)
    have msw: "mset ?ws' + mset ?sel = mset ?ws"
      using mset_matched_subset [of h pat ?ws] by (simp add: mset_fold_remove1)
    then have "size (mset ?ws' + mset ?sel) = size (mset ?ws)" by simp
    then have lw: "length ?ws' + length ?sel = unat ?n" using capl by simp
    have tb: "unat (TotalDimmsUsed st) + unat ?used < 2 ^ 32"
      using tot uu sl unat32_bound [of num] by simp
    have ut: "unat (TotalDimmsUsed st + ?used) = unat (TotalDimmsUsed st) + length ?sel"
      using tb uu by (simp add: unat_add_lem [THEN iffD1])
    have nle: "\<not> num < TotalDimmsUsed st + ?used"
      using ut tot sl by (simp add: word_less_nat_alt)
    have n1: "1 \<le> unat ?n" using pos by (simp add: unat_gt_0 Suc_le_eq)
    have gl: "unat (NewRegionsGoalNum st) < length (RegionGoals st)"
      using capg n1 by simp
    obtain goal index collab where
      mk: "mk tmpl buf' ?used (sz * ucast ?used div ucast num) prefs seq
             (InterleaveSetIndex st) (Collaborator st) = (goal, index, collab)"
      by (cases "mk tmpl buf' ?used (sz * ucast ?used div ucast num) prefs seq
             (InterleaveSetIndex st) (Collaborator st)")
    let ?call = "\<lparr>CallDimms = take (unat ?used) buf', CallDimmsNum = ?used,
                   CallSize = sz * ucast ?used div ucast num\<rparr>"
    let ?st2 = "st\<lparr>pDimmsInterleaved := buf', pDimmsCopy := l', RemainingDimms := n',
                   TotalDimmsUsed := TotalDimmsUsed st + ?used,
                   RegionGoals := (RegionGoals st)[unat (NewRegionsGoalNum st) := goal],
                   InterleaveSetIndex := index, Collaborator := collab,
                   Calls := Calls st @ [?call]\<rparr>"
    have it: "grouping_iteration h mk tmpl num sz prefs seq st =
        Some (if goal = None then Finish EFI_OUT_OF_RESOURCES ?st2
              else Continue (?st2\<lparr>NewRegionsGoalNum := NewRegionsGoalNum st + 1\<rparr>))"
      using nle gl
      by (simp add: grouping_iteration_def f rm mk EFI_ERROR_def Let_def)
    have cd: "CallDimms ?call = ?sel" using uu tk by simp
    have c1: "unat n' \<le> length l'" using un lw capl ll by simp
    have c2: "unat n' \<le> length buf'" using un lw capb len by simp
    have "set_mset (mset ?ws') \<subseteq> set_mset (mset ?ws)"
      using msw by (metis mset_subset_eq_add_left set_mset_mono)
    then have c3: "\<forall>p\<in>set ?ws'. valid_dimm h p" using valid by auto
    have c4: "mset ?ws' + mset (concat (map CallDimms (Calls st @ [?call]))) = mset input"
      using ms msw cd by (simp add: ac_simps)
    have c5: "unat (TotalDimmsUsed st + ?used) + unat n' = unat num"
      using ut un lw tot by simp
    have c6: "sum_list (map (\<lambda>c. unat (CallDimmsNum c)) (Calls st @ [?call]))
                = unat (TotalDimmsUsed st + ?used)"
      using sm ut uu by simp
    have "good_call h num sz ?call"
      using ne uu tk by (simp add: good_call_def share_of_def)
    then have c7: "\<forall>c\<in>set (Calls st @ [?call]). good_call h num sz c"
      using gc by auto
    have ls: "1 \<le> length ?sel" using ne by (cases ?sel) simp_all
    have c8: "unat (NewRegionsGoalNum st) + unat n' \<le> length (RegionGoals st)"
      using capg un lw by simp
    have c9: "unat (NewRegionsGoalNum st + 1) + unat n' \<le> length (RegionGoals st)"
      using capg un lw ls unat_succ_le [of "NewRegionsGoalNum st"] by simp
    have i2: "grouping_inv h input num sz ?st2"
      unfolding grouping_inv_def working_def
      using c1 c2 c3 c4 c5 c6 c7 c8 tw by simp
    have i3: "grouping_inv h input num sz (?st2\<lparr>NewRegionsGoalNum := NewRegionsGoalNum st + 1\<rparr>)"
      unfolding grouping_inv_def working_def
      using c1 c2 c3 c4 c5 c6 c7 c9 tw by simp
    show ?thesis
    proof (cases "goal = None")
      case True
      with it i2 show ?thesis by simp
    next
      case False
      with it i3 show ?thesis by simp
    qed
  qed
qed

lemma grouping_loop_inv:
  fixes st :: "('g, 's) grouping" and mk :: "('t, 'p, 'g, 's) goal_maker"
  shows "grouping_inv h input num sz st \<Longrightarrow>
    \<exists>rc st'. grouping_loop h mk tmpl num sz prefs seq st = Some (rc, st')
       \<and> grouping_inv h input num sz st'
       \<and> (rc = EFI_SUCCESS \<and> RemainingDimms st' = 0
           \<or> rc = EFI_ABORTED \<and> RemainingDimms st' \<noteq> 0
           \<or> rc = EFI_OUT_OF_RESOURCES)"
proof (induction "unat (RemainingDimms st)" arbitrary: st rule: less_induct)
  case less
  show ?case
  proof (cases "RemainingDimms st = 0")
    case True
    then have "grouping_loop h mk tmpl num sz prefs seq st = Some (EFI_SUCCESS, st)"
      by (subst grouping_loop.simps) simp
    with less.prems True show ?thesis by simp
  next
    case False
    then have pos: "0 < RemainingDimms st" by (simp add: word_gt_0)
    from grouping_iteration_inv [OF less.prems False, of mk tmpl prefs seq] obtain r where
      it: "grouping_iteration h mk tmpl num sz prefs seq st = Some r" and
      post: "(case r of
        Finish rc st' \<Rightarrow> grouping_inv h input num sz st'
           \<and> (rc = EFI_ABORTED \<and> RemainingDimms st' \<noteq> 0 \<or> rc = EFI_OUT_OF_RESOURCES)
      | Continue st' \<Rightarrow> grouping_inv h input num sz st')"
      by blast
    show ?thesis
    proof (cases r)
      case (Finish rc st')
      with it pos have "grouping_loop h mk tmpl num sz prefs seq st = Some (rc, st')"
        by (subst grouping_loop.simps) simp
      with post Finish show ?thesis by auto
    next
      case (Continue st')
      with it have "RemainingDimms st' < RemainingDimms st"
        by (auto dest: grouping_iteration_removes)
      then have m: "unat (RemainingDimms st') < unat (RemainingDimms st)"
        by (simp add: word_less_nat_alt)
      from post Continue have "grouping_inv h input num sz st'" by simp
      from less.hyps [OF m this] obtain rc st'' where
        "grouping_loop h mk tmpl num sz prefs seq st' = Some (rc, st'')"
        "grouping_inv h input num sz st''"
        "rc = EFI_SUCCESS \<and> RemainingDimms st'' = 0
           \<or> rc = EFI_ABORTED \<and> RemainingDimms st'' \<noteq> 0
           \<or> rc = EFI_OUT_OF_RESOURCES"
        by blast
      moreover have "grouping_loop h mk tmpl num sz prefs seq st =
          grouping_loop h mk tmpl num sz prefs seq st'"
        using it pos Continue by (subst grouping_loop.simps) simp
      ultimately show ?thesis by auto
    qed
  qed
qed

text \<open>The conditions under which a call stays inside its arrays and reads only DIMMs.\<close>

definition well_formed_call ::
  "nat \<Rightarrow> dimm_store \<Rightarrow> dimm_ptr list \<Rightarrow> UINT32 \<Rightarrow> 'g option list \<Rightarrow> UINT32 \<Rightarrow> bool" where
  "well_formed_call MAX_DIMMS h pDimms DimmsNum goals goalNum \<longleftrightarrow>
     unat DimmsNum \<le> MAX_DIMMS \<and> unat DimmsNum \<le> length pDimms \<and>
     (\<forall>p\<in>set (take (unat DimmsNum) pDimms). valid_dimm h p) \<and>
     unat goalNum + unat DimmsNum \<le> length goals"

lemma sum_list_ge_length:
  "\<forall>c\<in>set cs. 1 \<le> f c \<Longrightarrow> length cs \<le> sum_list (map f cs)"
  by (induction cs) auto

lemma Perform_outcome:
  fixes mk :: "('t, 'p, 'g, 's) goal_maker"
  assumes wf: "well_formed_call M h l num goals gnum"
  shows "\<exists>out. PerformInterleavingAndCreateGoal M h mk (Some tmpl) (Some l) num sz prefs seq
                  (Some goals) (Some gnum) (Some idx) c = Some out
     \<and> (\<forall>c\<in>set (CallLog out). good_call h num sz c)
     \<and> mset (concat (map CallDimms (CallLog out))) \<subseteq># mset (take (unat num) l)
     \<and> sum_list (map (\<lambda>c. unat (CallDimmsNum c)) (CallLog out)) \<le> unat num
     \<and> (Status out = EFI_SUCCESS
          \<and> (sz \<noteq> 0 \<longrightarrow>
                mset (concat (map CallDimms (CallLog out))) = mset (take (unat num) l)
                \<and> sum_list (map (\<lambda>c. unat (CallDimmsNum c)) (CallLog out)) = unat num)
         \<or> Status out = EFI_ABORTED
          \<and> sum_list (map (\<lambda>c. unat (CallDimmsNum c)) (CallLog out)) < unat num
         \<or> Status out = EFI_OUT_OF_RESOURCES)"
proof (cases "sz = 0")
  case True
  then show ?thesis
    by (simp add: PerformInterleavingAndCreateGoal_def)
next
  case sz: False
  from wf have capm: "unat num \<le> M" and capl: "unat num \<le> length l"
    and valid: "\<forall>p\<in>set (take (unat num) l). valid_dimm h p"
    and capg: "unat gnum + unat num \<le> length goals"
    by (simp_all add: well_formed_call_def)
  let ?copy = "take (unat num) l @ drop (unat num) (replicate M NULL)"
  have cp: "CopyMem_S (replicate M NULL) l (unat num) = Some ?copy"
    using capm capl by (simp add: CopyMem_S_def)
  have cp0: "num = 0 \<Longrightarrow> ?copy = replicate M NULL"
    by simp
  let ?st0 = "\<lparr>pDimmsCopy = ?copy, pDimmsInterleaved = replicate M NULL,
               RemainingDimms = num, TotalDimmsUsed = 0, RegionGoals = goals,
               NewRegionsGoalNum = gnum, InterleaveSetIndex = idx, Collaborator = c,
               Calls = []\<rparr> :: ('g, 's) grouping"
  have tk: "take (unat num) ?copy = take (unat num) l" using capl by simp
  have inv0: "grouping_inv h (take (unat num) l) num sz ?st0"
    unfolding grouping_inv_def working_def using capm capl valid capg tk by simp
  from grouping_loop_inv [OF inv0, of mk tmpl prefs seq] obtain rc st' where
    run: "grouping_loop h mk tmpl num sz prefs seq ?st0 = Some (rc, st')" and
    inv: "grouping_inv h (take (unat num) l) num sz st'" and
    rc: "rc = EFI_SUCCESS \<and> RemainingDimms st' = 0
           \<or> rc = EFI_ABORTED \<and> RemainingDimms st' \<noteq> 0
           \<or> rc = EFI_OUT_OF_RESOURCES"
    by blast
  let ?out = "\<lparr>Status = rc, GoalArray = Some (RegionGoals st'),
               GoalNum = Some (NewRegionsGoalNum st'), SetIndex = Some (InterleaveSetIndex st'),
               CollaboratorState = Collaborator st', CallLog = Calls st'\<rparr>"
  have p: "PerformInterleavingAndCreateGoal M h mk (Some tmpl) (Some l) num sz prefs seq
                  (Some goals) (Some gnum) (Some idx) c = Some ?out"
  proof (cases "0 < num")
    case True
    then show ?thesis
      using sz cp run by (simp add: PerformInterleavingAndCreateGoal_def)
  next
    case False
    then have "num = 0" by (simp add: word_gt_0)
    then show ?thesis
      using sz run cp0 by (simp add: PerformInterleavingAndCreateGoal_def)
  qed
  from inv have
    ms: "mset (working st') + mset (concat (map CallDimms (Calls st'))) = mset (take (unat num) l)"
    and tot: "unat (TotalDimmsUsed st') + unat (RemainingDimms st') = unat num"
    and sm: "sum_list (map (\<lambda>c. unat (CallDimmsNum c)) (Calls st')) = unat (TotalDimmsUsed st')"
    and gc: "\<forall>c\<in>set (Calls st'). good_call h num sz c"
    by (simp_all add: grouping_inv_def)
  have a: "mset (concat (map CallDimms (Calls st'))) \<subseteq># mset (take (unat num) l)"
    using ms by (metis mset_subset_eq_add_right)
  have b: "sum_list (map (\<lambda>c. unat (CallDimmsNum c)) (Calls st')) \<le> unat num"
    using sm tot by simp
  have s1: "RemainingDimms st' = 0 \<Longrightarrow>
      mset (concat (map CallDimms (Calls st'))) = mset (take (unat num) l)
      \<and> sum_list (map (\<lambda>c. unat (CallDimmsNum c)) (Calls st')) = unat num"
    using ms sm tot by (simp add: working_def)
  have s2: "RemainingDimms st' \<noteq> 0 \<Longrightarrow>
      sum_list (map (\<lambda>c. unat (CallDimmsNum c)) (Calls st')) < unat num"
    using sm tot by (simp add: unat_gt_0 [symmetric])
  show ?thesis
    using p gc a b s1 s2 rc by (intro exI [of _ ?out]) auto
qed

section \<open>What the collaborator receives\<close>

text \<open>
  The collaborator is outside the module, so what it is handed is observed from its
  side: \<open>recording CreateRegionGoal\<close> is the collaborator \<open>CreateRegionGoal\<close> that, besides
  doing what \<open>CreateRegionGoal\<close> does, appends to a list in its own state the group it
  is handed at each call: the entries of its array argument up to its count argument,
  the count and the capacity share, all read from its own arguments.
\<close>

definition recording ::
  "('t, 'p, 'g, 's) goal_maker \<Rightarrow> ('t, 'p, 'g, 's \<times> goal_call list) goal_maker" where
  "recording CreateRegionGoal tmpl pDimms DimmsNum InterleaveSetSize prefs sq ix st =
     (case CreateRegionGoal tmpl pDimms DimmsNum InterleaveSetSize prefs sq ix (fst st) of
        (goal, index, collaborator) \<Rightarrow>
          (goal, index,
           (collaborator,
            snd st @ [\<lparr>CallDimms = take (unat DimmsNum) pDimms, CallDimmsNum = DimmsNum,
                       CallSize = InterleaveSetSize\<rparr>])))"

text \<open>What a recording collaborator that started with an empty list has received.\<close>

definition received :: "('g, 's \<times> goal_call list) outcome \<Rightarrow> goal_call list" where
  "received out = snd (CollaboratorState out)"

text \<open>The list kept by the collaborator is the log of calls kept by the loop.\<close>

lemma grouping_iteration_recording:
  assumes "grouping_iteration h (recording mk) tmpl num sz prefs sq st = Some r"
    and "snd (Collaborator st) = Calls st"
  shows "case r of Finish rc st' \<Rightarrow> snd (Collaborator st') = Calls st'
                 | Continue st' \<Rightarrow> snd (Collaborator st') = Calls st'"
  using assms
  by (auto simp: grouping_iteration_def recording_def Let_def
           split: option.splits if_splits prod.splits)

lemma grouping_loop_recording:
  "grouping_loop h (recording mk) tmpl num sz prefs sq st = Some (rc, st') \<Longrightarrow>
   snd (Collaborator st) = Calls st \<Longrightarrow> snd (Collaborator st') = Calls st'"
proof (induction "unat (RemainingDimms st)" arbitrary: st rule: less_induct)
  case less
  show ?case
  proof (cases "RemainingDimms st = 0")
    case True
    with less.prems(1) have "st' = st"
      by (subst (asm) grouping_loop.simps) simp
    with less.prems(2) show ?thesis by simp
  next
    case False
    then have pos: "0 < RemainingDimms st" by (simp add: word_gt_0)
    with less.prems(1) obtain r where
      it: "grouping_iteration h (recording mk) tmpl num sz prefs sq st = Some r"
      by (subst (asm) grouping_loop.simps) (auto split: option.splits)
    note post = grouping_iteration_recording [OF it less.prems(2)]
    show ?thesis
    proof (cases r)
      case (Finish rc1 st1)
      with it pos less.prems(1) have "st' = st1"
        by (subst (asm) grouping_loop.simps) simp
      with post Finish show ?thesis by simp
    next
      case (Continue st1)
      with it have "RemainingDimms st1 < RemainingDimms st"
        by (auto dest: grouping_iteration_removes)
      then have m: "unat (RemainingDimms st1) < unat (RemainingDimms st)"
        by (simp add: word_less_nat_alt)
      from it pos Continue less.prems(1)
      have "grouping_loop h (recording mk) tmpl num sz prefs sq st1 = Some (rc, st')"
        by (subst (asm) grouping_loop.simps) simp
      moreover from post Continue have "snd (Collaborator st1) = Calls st1" by simp
      ultimately show ?thesis using less.hyps [OF m] by blast
    qed
  qed
qed

lemma Perform_recording:
  assumes "PerformInterleavingAndCreateGoal M h (recording mk) tmpl l num sz prefs sq goals
             gnum idx (c, []) = Some out"
  shows "snd (CollaboratorState out) = CallLog out"
  using assms
  by (auto simp: PerformInterleavingAndCreateGoal_def
           split: if_splits option.splits dest!: grouping_loop_recording)

text \<open>
  Recording changes nothing else: the call with the bare collaborator returns what the
  call with the recording collaborator returns, less the list.
\<close>

definition unrecorded :: "('g, 's \<times> goal_call list) grouping \<Rightarrow> ('g, 's) grouping" where
  "unrecorded st =
     \<lparr>pDimmsCopy = pDimmsCopy st, pDimmsInterleaved = pDimmsInterleaved st,
      RemainingDimms = RemainingDimms st, TotalDimmsUsed = TotalDimmsUsed st,
      RegionGoals = RegionGoals st, NewRegionsGoalNum = NewRegionsGoalNum st,
      InterleaveSetIndex = InterleaveSetIndex st, Collaborator = fst (Collaborator st),
      Calls = Calls st\<rparr>"

definition unrecorded_outcome :: "('g, 's \<times> goal_call list) outcome \<Rightarrow> ('g, 's) outcome" where
  "unrecorded_outcome out =
     \<lparr>Status = Status out, GoalArray = GoalArray out, GoalNum = GoalNum out,
      SetIndex = SetIndex out, CollaboratorState = fst (CollaboratorState out),
      CallLog = CallLog out\<rparr>"

lemma grouping_iteration_unrecorded:
  "grouping_iteration h mk tmpl num sz prefs sq (unrecorded st)
     = map_option (map_iteration unrecorded)
         (grouping_iteration h (recording mk) tmpl num sz prefs sq st)"
  by (auto simp: grouping_iteration_def recording_def unrecorded_def Let_def
           split: option.splits prod.splits)

lemma grouping_loop_unrecorded:
  "grouping_loop h mk tmpl num sz prefs sq (unrecorded st)
     = map_option (\<lambda>(rc, st'). (rc, unrecorded st'))
         (grouping_loop h (recording mk) tmpl num sz prefs sq st)"
proof (induction "unat (RemainingDimms st)" arbitrary: st rule: less_induct)
  case less
  have rd: "RemainingDimms (unrecorded st) = RemainingDimms st"
    by (simp add: unrecorded_def)
  note L = grouping_loop.simps [of h mk tmpl num sz prefs sq "unrecorded st"]
  note R = grouping_loop.simps [of h "recording mk" tmpl num sz prefs sq st]
  show ?case
  proof (cases "RemainingDimms st = 0")
    case True
    then show ?thesis
      by (simp add: L R rd)
  next
    case False
    then have pos: "0 < RemainingDimms st" by (simp add: word_gt_0)
    show ?thesis
    proof (cases "grouping_iteration h (recording mk) tmpl num sz prefs sq st")
      case None
      then show ?thesis
        using pos
        by (simp add: L R rd grouping_iteration_unrecorded)
    next
      case (Some r)
      show ?thesis
      proof (cases r)
        case (Finish rc1 st1)
        with Some pos show ?thesis
          by (simp add: L R rd grouping_iteration_unrecorded)
      next
        case (Continue st1)
        with Some have "RemainingDimms st1 < RemainingDimms st"
          by (auto dest: grouping_iteration_removes)
        then have m: "unat (RemainingDimms st1) < unat (RemainingDimms st)"
          by (simp add: word_less_nat_alt)
        from less.hyps [OF m] Some Continue pos show ?thesis
          by (simp add: L R rd grouping_iteration_unrecorded)
      qed
    qed
  qed
qed

lemma Perform_unrecorded:
  "PerformInterleavingAndCreateGoal M h mk tmpl l num sz prefs sq goals gnum idx c
     = map_option unrecorded_outcome
         (PerformInterleavingAndCreateGoal M h (recording mk) tmpl l num sz prefs sq goals
            gnum idx (c, []))"
proof -
  have st0: "\<lparr>pDimmsCopy = a, pDimmsInterleaved = b, RemainingDimms = n, TotalDimmsUsed = t,
             RegionGoals = g, NewRegionsGoalNum = k, InterleaveSetIndex = i, Collaborator = c,
             Calls = []\<rparr>
           = unrecorded \<lparr>pDimmsCopy = a, pDimmsInterleaved = b, RemainingDimms = n,
               TotalDimmsUsed = t, RegionGoals = g, NewRegionsGoalNum = k,
               InterleaveSetIndex = i, Collaborator = (c, []), Calls = []\<rparr>" for a b n t g k i
    by (simp add: unrecorded_def)
  show ?thesis
    unfolding PerformInterleavingAndCreateGoal_def st0 grouping_loop_unrecorded
    by (auto simp: unrecorded_outcome_def unrecorded_def split: option.splits)
qed

text \<open>The facts about a well-formed call, in terms of what the collaborator received.\<close>

lemma Perform_received:
  fixes mk :: "('t, 'p, 'g, 's) goal_maker"
  assumes wf: "well_formed_call M h l num goals gnum"
    and run: "PerformInterleavingAndCreateGoal M h (recording mk) (Some tmpl) (Some l) num sz
                prefs sq (Some goals) (Some gnum) (Some idx) (c, []) = Some out"
  shows "(\<forall>c\<in>set (received out). good_call h num sz c)
     \<and> mset (concat (map CallDimms (received out))) \<subseteq># mset (take (unat num) l)
     \<and> sum_list (map (\<lambda>c. unat (CallDimmsNum c)) (received out)) \<le> unat num
     \<and> (Status out = EFI_SUCCESS
          \<and> (sz \<noteq> 0 \<longrightarrow>
                mset (concat (map CallDimms (received out))) = mset (take (unat num) l)
                \<and> sum_list (map (\<lambda>c. unat (CallDimmsNum c)) (received out)) = unat num)
         \<or> Status out = EFI_ABORTED
          \<and> sum_list (map (\<lambda>c. unat (CallDimmsNum c)) (received out)) < unat num
         \<or> Status out = EFI_OUT_OF_RESOURCES)
     \<and> (sz = 0 \<longrightarrow> received out = [])"
proof -
  have r: "received out = CallLog out"
    using Perform_recording [OF run] by (simp add: received_def)
  have z: "sz = 0 \<longrightarrow> received out = []"
    using run by (auto simp: PerformInterleavingAndCreateGoal_def received_def)
  from Perform_outcome [OF wf, of "recording mk" tmpl sz prefs sq idx "(c, [])"] run z
  show ?thesis unfolding r by auto
qed

section \<open>Capacity shares\<close>

lemma unat_ucast_32_64: "unat (ucast (x :: 32 word) :: 64 word) = unat x"
  using unsigned_less [of x, where ?'a = nat]
  by (simp add: unsigned_ucast_eq take_bit_nat_eq_self_iff)

lemma unat_share_of:
  "unat (share_of sz used num) = (unat sz * unat used) mod 2 ^ 64 div unat num"
  by (simp add: share_of_def unat_div unat_word_ariths unat_ucast_32_64)

lemma shares_upper:
  fixes f g :: "'a \<Rightarrow> nat"
  assumes "\<forall>c\<in>set cs. n * f c \<le> g c"
  shows "n * sum_list (map f cs) \<le> sum_list (map g cs)"
  using assms by (induction cs) (auto simp: distrib_left intro: add_mono)

lemma shares_upper_gap:
  fixes f g :: "'a \<Rightarrow> nat"
  assumes all: "\<forall>c\<in>set cs. n * f c \<le> g c" and c0: "c0 \<in> set cs" and gap: "n * f c0 + B \<le> g c0"
  shows "n * sum_list (map f cs) + B \<le> sum_list (map g cs)"
proof -
  have "\<forall>c\<in>set (remove1 c0 cs). n * f c \<le> g c"
    using all by (auto dest: notin_set_remove1)
  then have "n * sum_list (map f (remove1 c0 cs)) \<le> sum_list (map g (remove1 c0 cs))"
    by (rule shares_upper)
  moreover have "sum_list (map f cs) = f c0 + sum_list (map f (remove1 c0 cs))"
    using c0 by (rule sum_list_map_remove1)
  moreover have "sum_list (map g cs) = g c0 + sum_list (map g (remove1 c0 cs))"
    using c0 by (rule sum_list_map_remove1)
  ultimately show ?thesis using gap by (simp add: distrib_left)
qed

lemma shares_lower:
  fixes f g :: "'a \<Rightarrow> nat"
  assumes "\<forall>c\<in>set cs. g c + 1 \<le> n * (f c + 1)"
  shows "sum_list (map g cs) + length cs \<le> n * (sum_list (map f cs) + length cs)"
  using assms
proof (induction cs)
  case Nil
  then show ?case by simp
next
  case (Cons c cs)
  then have "g c + 1 \<le> n * (f c + 1)"
    and "sum_list (map g cs) + length cs \<le> n * (sum_list (map f cs) + length cs)"
    by simp_all
  then have "(g c + 1) + (sum_list (map g cs) + length cs)
      \<le> n * (f c + 1) + n * (sum_list (map f cs) + length cs)"
    by (rule add_mono)
  then show ?case by (simp add: distrib_left)
qed

lemma div_step: "0 < (n::nat) \<Longrightarrow> x + 1 \<le> n * (x div n + 1)"
proof -
  assume n: "0 < n"
  have "x = n * (x div n) + x mod n" by simp
  moreover have "x mod n < n" using n by simp
  ultimately have "x < n * (x div n) + n" by linarith
  then show ?thesis by simp
qed

lemma wrapped_div_gap:
  fixes x n :: nat
  assumes "2 ^ 64 \<le> x"
  shows "n * (x mod 2 ^ 64 div n) + 2 ^ 64 \<le> x"
proof -
  have "n * (x mod 2 ^ 64 div n) \<le> x mod 2 ^ 64" by simp
  moreover have "x mod 2 ^ 64 + 2 ^ 64 \<le> x"
  proof -
    have "x = 2 ^ 64 * (x div 2 ^ 64) + x mod 2 ^ 64" by simp
    moreover have "1 \<le> x div 2 ^ 64" using assms by (simp add: div_greater_zero_iff Suc_le_eq)
    then have "(2::nat) ^ 64 * 1 \<le> 2 ^ 64 * (x div 2 ^ 64)" by (rule mult_le_mono2)
    ultimately show ?thesis by linarith
  qed
  ultimately show ?thesis by linarith
qed

lemma share_exact_iff:
  fixes x n :: nat
  assumes "0 < n" "n < 2 ^ 64"
  shows "x mod 2 ^ 64 div n = x div n \<longleftrightarrow> x < 2 ^ 64"
proof
  assume "x < 2 ^ 64"
  then show "x mod 2 ^ 64 div n = x div n" by simp
next
  assume eq: "x mod 2 ^ 64 div n = x div n"
  show "x < 2 ^ 64"
  proof (rule ccontr)
    assume "\<not> x < 2 ^ 64"
    then have "2 ^ 64 \<le> x" by simp
    from wrapped_div_gap [OF this, of n] eq have "n * (x div n) + 2 ^ 64 \<le> x" by simp
    moreover have "x < n * (x div n) + n" using div_step [OF assms(1), of x] by simp
    ultimately show False using assms(2) by linarith
  qed
qed

lemma good_call_size:
  "good_call h num sz c \<Longrightarrow>
   unat (CallSize c) = (unat sz * unat (CallDimmsNum c)) mod 2 ^ 64 div unat num
   \<and> 1 \<le> unat (CallDimmsNum c)"
  by (cases "CallDimms c") (simp_all add: good_call_def unat_share_of)

lemma calls_need_dimms:
  assumes "\<forall>c\<in>set cs. good_call h num sz c" and "c \<in> set cs"
    and "sum_list (map (\<lambda>c. unat (CallDimmsNum c)) cs) \<le> unat num"
  shows "0 < unat num"
proof -
  have "unat (CallDimmsNum c) \<le> sum_list (map (\<lambda>c. unat (CallDimmsNum c)) cs)"
    using assms(2) by (simp add: member_le_sum_list)
  moreover have "1 \<le> unat (CallDimmsNum c)"
    using assms(1,2) good_call_size by blast
  ultimately show ?thesis using assms(3) by simp
qed

lemma shares_sum_le:
  assumes gc: "\<forall>c\<in>set cs. good_call h num sz c"
    and sm: "sum_list (map (\<lambda>c. unat (CallDimmsNum c)) cs) \<le> unat num"
  shows "sum_list (map (\<lambda>c. unat (CallSize c)) cs) \<le> unat sz"
proof (cases "cs = []")
  case True
  then show ?thesis by simp
next
  case False
  then obtain c0 where c0: "c0 \<in> set cs" by (cases cs) auto
  have n: "0 < unat num" using calls_need_dimms [OF gc c0 sm] .
  have "\<forall>c\<in>set cs. unat num * unat (CallSize c) \<le> unat sz * unat (CallDimmsNum c)"
  proof
    fix c assume "c \<in> set cs"
    with gc have "unat (CallSize c) = (unat sz * unat (CallDimmsNum c)) mod 2 ^ 64 div unat num"
      using good_call_size by blast
    then have "unat num * unat (CallSize c) \<le> (unat sz * unat (CallDimmsNum c)) mod 2 ^ 64"
      by simp
    also have "\<dots> \<le> unat sz * unat (CallDimmsNum c)" by simp
    finally show "unat num * unat (CallSize c) \<le> unat sz * unat (CallDimmsNum c)" .
  qed
  then have "unat num * sum_list (map (\<lambda>c. unat (CallSize c)) cs)
      \<le> sum_list (map (\<lambda>c. unat sz * unat (CallDimmsNum c)) cs)"
    by (rule shares_upper)
  also have "\<dots> = unat sz * sum_list (map (\<lambda>c. unat (CallDimmsNum c)) cs)"
    by (simp add: sum_list_const_mult)
  also have "\<dots> \<le> unat sz * unat num"
    using sm by simp
  finally have "unat num * sum_list (map (\<lambda>c. unat (CallSize c)) cs) \<le> unat num * unat sz"
    by (simp add: mult.commute)
  then show ?thesis using n by simp
qed

lemma shares_shortfall:
  assumes gc: "\<forall>c\<in>set cs. good_call h num sz c"
    and sm: "sum_list (map (\<lambda>c. unat (CallDimmsNum c)) cs) = unat num"
    and fit: "\<forall>c\<in>set cs. unat sz * unat (CallDimmsNum c) < 2 ^ 64"
    and n: "0 < unat num"
  shows "cs \<noteq> [] \<and> unat sz \<le> sum_list (map (\<lambda>c. unat (CallSize c)) cs) + (length cs - 1)"
proof -
  have ne: "cs \<noteq> []" using sm n by auto
  have "\<forall>c\<in>set cs. unat sz * unat (CallDimmsNum c) + 1
            \<le> unat num * (unat (CallSize c) + 1)"
  proof
    fix c assume c: "c \<in> set cs"
    with gc have "unat (CallSize c) = (unat sz * unat (CallDimmsNum c)) mod 2 ^ 64 div unat num"
      using good_call_size by blast
    with fit c have "unat (CallSize c) = unat sz * unat (CallDimmsNum c) div unat num"
      by simp
    then show "unat sz * unat (CallDimmsNum c) + 1 \<le> unat num * (unat (CallSize c) + 1)"
      using div_step [OF n, of "unat sz * unat (CallDimmsNum c)"] by simp
  qed
  then have "sum_list (map (\<lambda>c. unat sz * unat (CallDimmsNum c)) cs) + length cs
      \<le> unat num * (sum_list (map (\<lambda>c. unat (CallSize c)) cs) + length cs)"
    by (rule shares_lower)
  then have le: "unat sz * unat num + length cs
      \<le> unat num * (sum_list (map (\<lambda>c. unat (CallSize c)) cs) + length cs)"
    using sm by (simp add: sum_list_const_mult)
  have "0 < length cs" using ne by simp
  then have "unat num * unat sz < unat sz * unat num + length cs"
    by (simp add: mult.commute)
  also note le
  finally have "unat num * unat sz
      < unat num * (sum_list (map (\<lambda>c. unat (CallSize c)) cs) + length cs)" .
  then have "unat sz < sum_list (map (\<lambda>c. unat (CallSize c)) cs) + length cs"
    by simp
  with ne show ?thesis by simp
qed

lemma shares_wrapped_shortfall:
  assumes gc: "\<forall>c\<in>set cs. good_call h num sz c"
    and sm: "sum_list (map (\<lambda>c. unat (CallDimmsNum c)) cs) = unat num"
    and c0: "c0 \<in> set cs" and wrap: "2 ^ 64 \<le> unat sz * unat (CallDimmsNum c0)"
  shows "sum_list (map (\<lambda>c. unat (CallSize c)) cs) + length cs \<le> unat sz"
proof -
  have n: "0 < unat num" using calls_need_dimms [OF gc c0] sm by simp
  have all: "\<forall>c\<in>set cs. unat num * unat (CallSize c) \<le> unat sz * unat (CallDimmsNum c)"
  proof
    fix c assume "c \<in> set cs"
    with gc have "unat (CallSize c) = (unat sz * unat (CallDimmsNum c)) mod 2 ^ 64 div unat num"
      using good_call_size by blast
    then have "unat num * unat (CallSize c) \<le> (unat sz * unat (CallDimmsNum c)) mod 2 ^ 64"
      by simp
    also have "\<dots> \<le> unat sz * unat (CallDimmsNum c)" by simp
    finally show "unat num * unat (CallSize c) \<le> unat sz * unat (CallDimmsNum c)" .
  qed
  have "unat (CallSize c0) = (unat sz * unat (CallDimmsNum c0)) mod 2 ^ 64 div unat num"
    using gc c0 good_call_size by blast
  then have gap: "unat num * unat (CallSize c0) + 2 ^ 64 \<le> unat sz * unat (CallDimmsNum c0)"
    using wrapped_div_gap [OF wrap, of "unat num"] by simp
  from shares_upper_gap [OF all c0 gap]
  have "unat num * sum_list (map (\<lambda>c. unat (CallSize c)) cs) + 2 ^ 64
      \<le> unat sz * unat num"
    using sm by (simp add: sum_list_const_mult)
  moreover have "length cs \<le> unat num"
    using sum_list_ge_length [of cs "\<lambda>c. unat (CallDimmsNum c)"] gc good_call_size sm
    by fastforce
  moreover have "unat num < 2 ^ 32" by (rule unat32_bound)
  then have "unat num * unat num < 2 ^ 32 * 2 ^ 32"
    by (intro mult_strict_mono) simp_all
  ultimately have "unat num * sum_list (map (\<lambda>c. unat (CallSize c)) cs) + unat num * length cs
      \<le> unat num * unat sz"
  proof -
    assume a: "unat num * sum_list (map (\<lambda>c. unat (CallSize c)) cs) + 2 ^ 64 \<le> unat sz * unat num"
      and b: "length cs \<le> unat num" and c: "unat num * unat num < 2 ^ 32 * 2 ^ 32"
    have "unat num * length cs \<le> unat num * unat num" using b by simp
    also have "\<dots> < 2 ^ 64" using c by simp
    finally have "unat num * length cs < 2 ^ 64" .
    with a show ?thesis by (simp add: mult.commute)
  qed
  then have "unat num * (sum_list (map (\<lambda>c. unat (CallSize c)) cs) + length cs)
      \<le> unat num * unat sz"
    by (simp add: distrib_left)
  then show ?thesis using n by simp
qed

section \<open>Parameter checks and no-op cases\<close>

text \<open>
  C8. Removing a DIMM that does not stand in the working list (the first
  \<open>*pDimmsListNum\<close> entries of the array) returns success and leaves the array and the
  count as they were. \<open>RemoveDimmFromList\<close> with a null list, a null count or a null
  DIMM, and \<open>RemoveDimmArrayFromList\<close> with a null list, a null count or a null array,
  return \<open>EFI_INVALID_PARAMETER\<close> and change nothing.
\<close>

theorem remove_absent_or_null:
  "(unat n \<le> length l \<and> p \<noteq> NULL \<and> p \<notin> set (take (unat n) l) \<longrightarrow>
      RemoveDimmFromList (Some l) (Some n) p = Some (EFI_SUCCESS, Some l, Some n))
   \<and> (pList = None \<or> pNum = None \<or> pDimm = NULL \<longrightarrow>
      RemoveDimmFromList pList pNum pDimm = Some (EFI_INVALID_PARAMETER, pList, pNum))
   \<and> (pList = None \<or> pNum = None \<or> pArray = None \<longrightarrow>
      RemoveDimmArrayFromList pList pNum pArray k = Some (EFI_INVALID_PARAMETER, pList, pNum))"
proof (intro conjI impI)
  assume "unat n \<le> length l \<and> p \<noteq> NULL \<and> p \<notin> set (take (unat n) l)"
  then show "RemoveDimmFromList (Some l) (Some n) p = Some (EFI_SUCCESS, Some l, Some n)"
    by (simp add: RemoveDimmFromList_absent)
next
  assume "pList = None \<or> pNum = None \<or> pDimm = NULL"
  then show "RemoveDimmFromList pList pNum pDimm = Some (EFI_INVALID_PARAMETER, pList, pNum)"
    by (auto simp: RemoveDimmFromList_def)
next
  assume "pList = None \<or> pNum = None \<or> pArray = None"
  then show "RemoveDimmArrayFromList pList pNum pArray k
               = Some (EFI_INVALID_PARAMETER, pList, pNum)"
    by (auto simp: RemoveDimmArrayFromList_def)
qed

theorem remove_absent_or_null_witness:
  "RemoveDimmFromList (Some [10, 20, 30, 40]) (Some 3) 40
     = Some (EFI_SUCCESS, Some [10, 20, 30, 40], Some 3)
   \<and> RemoveDimmFromList (Some [10, 20, 30, 40]) (Some 3) NULL
     = Some (EFI_INVALID_PARAMETER, Some [10, 20, 30, 40], Some 3)
   \<and> RemoveDimmFromList None (Some 3) 10 = Some (EFI_INVALID_PARAMETER, None, Some 3)
   \<and> RemoveDimmArrayFromList (Some [10, 20, 30, 40]) None (Some [10]) 1
     = Some (EFI_INVALID_PARAMETER, Some [10, 20, 30, 40], None)
   \<and> RemoveDimmArrayFromList (Some [10, 20, 30, 40]) (Some 3) None 1
     = Some (EFI_INVALID_PARAMETER, Some [10, 20, 30, 40], Some 3)"
  using remove_absent_or_null [of 3 "[10, 20, 30, 40]" 40 "Some [10, 20, 30, 40]" "Some 3"
          NULL None 1]
        remove_absent_or_null [of 3 "[10, 20, 30, 40]" 40 None "Some 3" 10 "Some [10]" 1]
        remove_absent_or_null [of 3 "[10, 20, 30, 40]" 40 "Some [10, 20, 30, 40]" None
          10 "Some [10]" 1]
  by simp

text \<open>
  C7. With valid (non-null) pointer arguments and a requested interleave size of zero,
  \<open>PerformInterleavingAndCreateGoal\<close> returns success for every DIMM list and count; it
  calls the collaborator not once, and the goal array, the goal count and the
  interleave set index are what they were.
\<close>

theorem zero_size_is_no_op:
  assumes "pRegionGoalTemplate \<noteq> None" and "pDimms \<noteq> None" and "pRegionGoal \<noteq> None"
    and "pNewRegionsGoalNum \<noteq> None" and "pInterleaveSetIndex \<noteq> None"
  shows "PerformInterleavingAndCreateGoal MAX_DIMMS h CreateRegionGoal pRegionGoalTemplate
           pDimms DimmsNum 0 pDriverPreferences SequenceIndex pRegionGoal pNewRegionsGoalNum
           pInterleaveSetIndex collaborator =
         Some \<lparr>Status = EFI_SUCCESS, GoalArray = pRegionGoal, GoalNum = pNewRegionsGoalNum,
               SetIndex = pInterleaveSetIndex, CollaboratorState = collaborator,
               CallLog = []\<rparr>"
  using assms by (simp add: PerformInterleavingAndCreateGoal_def)

theorem zero_size_is_no_op_witness:
  "PerformInterleavingAndCreateGoal 4 (Map.empty(1 \<mapsto> \<lparr>ImcId = 0, ChannelId = 0\<rparr>))
     (\<lambda>t ds n sz pr sq ix (c::nat). (Some c, ix + 1, Suc c))
     (Some ()) (Some [1]) 1 0 (None :: unit option) 0 (Some [None, None]) (Some 0) (Some 7)
     (0::nat) =
   Some \<lparr>Status = EFI_SUCCESS, GoalArray = Some [None, None], GoalNum = Some 0,
         SetIndex = Some 7, CollaboratorState = 0, CallLog = []\<rparr>"
  using zero_size_is_no_op [of "Some ()" "Some [1]" "Some [None, None]" "Some 0" "Some 7"
          4 "Map.empty(1 \<mapsto> \<lparr>ImcId = 0, ChannelId = 0\<rparr>)"
          "\<lambda>t ds n sz pr sq ix (c::nat). (Some c, ix + 1, Suc c)" 1 "None :: unit option" 0
          "0::nat"]
  by simp

section \<open>Example populations\<close>

text \<open>
  A store with one DIMM in each of the six slots (addresses 1 to 6 hold slots 0 to 5)
  and, at address 7, a DIMM on a third controller, whose slot index 6 no pattern names.
\<close>

definition example_store :: dimm_store where
  "example_store =
     [1 \<mapsto> \<lparr>ImcId = 0, ChannelId = 0\<rparr>, 2 \<mapsto> \<lparr>ImcId = 1, ChannelId = 0\<rparr>,
      3 \<mapsto> \<lparr>ImcId = 0, ChannelId = 1\<rparr>, 4 \<mapsto> \<lparr>ImcId = 1, ChannelId = 1\<rparr>,
      5 \<mapsto> \<lparr>ImcId = 0, ChannelId = 2\<rparr>, 6 \<mapsto> \<lparr>ImcId = 1, ChannelId = 2\<rparr>,
      7 \<mapsto> \<lparr>ImcId = 2, ChannelId = 2\<rparr>]"

text \<open>
  A collaborator that never runs out of resources: its state counts the goals made, the
  goal it returns is that count, and it increments the interleave set index.
\<close>

definition counting_maker :: "(unit, unit, nat, nat) goal_maker" where
  "counting_maker tmpl dimms used share prefs sq ix made = (Some made, ix + 1, Suc made)"

text \<open>
  A call on the example store with \<open>MAX_DIMMS = 6\<close>, room for six goals, and the goal
  count and the interleave set index at zero.
\<close>

definition example_call :: "dimm_ptr list \<Rightarrow> UINT32 \<Rightarrow> UINT64 \<Rightarrow> (nat, nat) outcome option" where
  "example_call pDimms DimmsNum InterleaveSetSize =
     PerformInterleavingAndCreateGoal 6 example_store counting_maker (Some ()) (Some pDimms)
       DimmsNum InterleaveSetSize None 0 (Some (replicate 6 None)) (Some 0) (Some 0) 0"

text \<open>The DIMMs in slots 0, 1 and 2, with 100 capacity units requested.\<close>

definition three_dimm_outcome :: "(nat, nat) outcome" where
  "three_dimm_outcome =
     \<lparr>Status = EFI_SUCCESS,
      GoalArray = Some [Some 0, Some 1, None, None, None, None], GoalNum = Some 2,
      SetIndex = Some 2, CollaboratorState = 2,
      CallLog = [\<lparr>CallDimms = [1, 2], CallDimmsNum = 2, CallSize = 66\<rparr>,
                 \<lparr>CallDimms = [3], CallDimmsNum = 1, CallSize = 33\<rparr>]\<rparr>"

lemma three_dimm_well_formed:
  "well_formed_call 6 example_store [1, 2, 3] 3 (replicate 6 (None :: nat option)) 0"
  by code_simp

lemma three_dimm_run: "example_call [1, 2, 3] 3 100 = Some three_dimm_outcome"
  by code_simp

text \<open>
  The same call with the collaborator recording what it receives, and its outcome for
  the DIMMs in slots 0, 1 and 2 with 100 capacity units requested.
\<close>

definition recorded_call ::
  "dimm_ptr list \<Rightarrow> UINT32 \<Rightarrow> UINT64 \<Rightarrow> (nat, nat \<times> goal_call list) outcome option" where
  "recorded_call pDimms DimmsNum InterleaveSetSize =
     PerformInterleavingAndCreateGoal 6 example_store (recording counting_maker) (Some ())
       (Some pDimms) DimmsNum InterleaveSetSize None 0 (Some (replicate 6 None)) (Some 0)
       (Some 0) (0, [])"

definition three_dimm_recorded :: "(nat, nat \<times> goal_call list) outcome" where
  "three_dimm_recorded =
     \<lparr>Status = EFI_SUCCESS,
      GoalArray = Some [Some 0, Some 1, None, None, None, None], GoalNum = Some 2,
      SetIndex = Some 2,
      CollaboratorState =
        (2, [\<lparr>CallDimms = [1, 2], CallDimmsNum = 2, CallSize = 66\<rparr>,
             \<lparr>CallDimms = [3], CallDimmsNum = 1, CallSize = 33\<rparr>]),
      CallLog = [\<lparr>CallDimms = [1, 2], CallDimmsNum = 2, CallSize = 66\<rparr>,
                 \<lparr>CallDimms = [3], CallDimmsNum = 1, CallSize = 33\<rparr>]\<rparr>"

lemma three_dimm_recorded_run: "recorded_call [1, 2, 3] 3 100 = Some three_dimm_recorded"
  by code_simp

lemma three_dimm_received:
  "received three_dimm_recorded
     = [\<lparr>CallDimms = [1, 2], CallDimmsNum = 2, CallSize = 66\<rparr>,
        \<lparr>CallDimms = [3], CallDimmsNum = 1, CallSize = 33\<rparr>]"
  by (simp add: received_def three_dimm_recorded_def)


section \<open>The groups partition the input\<close>

text \<open>
  C1, as amended. Let the collaborator be any function, recording what it receives. Take
  a call with valid pointers that is well formed (\<open>DimmsNum\<close> within \<open>MAX_DIMMS\<close> and
  within the caller's arrays, every listed pointer a DIMM whose slot index is below 31)
  and whose requested size is not zero. If it returns success, the groups the
  collaborator received, taken together, are the first \<open>DimmsNum\<close> entries of the input
  as a multiset: every DIMM is in the groups as often as in the input, so none is
  dropped and, when the input has no duplicates, none stands in two groups or twice in
  one. The counts the collaborator received add up to \<open>DimmsNum\<close> and each count is the
  size of its group.
\<close>

theorem groups_partition_input:
  fixes CreateRegionGoal :: "('t, 'p, 'g, 's) goal_maker"
  assumes "well_formed_call MAX_DIMMS h pDimms DimmsNum goals goalNum"
    and "InterleaveSetSize \<noteq> 0"
    and "PerformInterleavingAndCreateGoal MAX_DIMMS h (recording CreateRegionGoal) (Some tmpl)
           (Some pDimms) DimmsNum InterleaveSetSize prefs sq (Some goals) (Some goalNum)
           (Some ix) (c, []) = Some out"
    and "Status out = EFI_SUCCESS"
  shows "mset (concat (map CallDimms (received out))) = mset (take (unat DimmsNum) pDimms)
       \<and> sum_list (map (\<lambda>c. unat (CallDimmsNum c)) (received out)) = unat DimmsNum
       \<and> (\<forall>c\<in>set (received out). unat (CallDimmsNum c) = length (CallDimms c))
       \<and> (distinct (take (unat DimmsNum) pDimms)
            \<longrightarrow> distinct (concat (map CallDimms (received out))))"
proof -
  from Perform_received [OF assms(1,3)] assms(2,4)
  have gc: "\<forall>c\<in>set (received out). good_call h DimmsNum InterleaveSetSize c"
    and ms: "mset (concat (map CallDimms (received out))) = mset (take (unat DimmsNum) pDimms)"
    and sm: "sum_list (map (\<lambda>c. unat (CallDimmsNum c)) (received out)) = unat DimmsNum"
    by auto
  from ms have "distinct (take (unat DimmsNum) pDimms)
            \<longrightarrow> distinct (concat (map CallDimms (received out)))"
    by (metis mset_eq_imp_distinct_iff)
  with gc ms sm show ?thesis by (simp add: good_call_def)
qed

theorem groups_partition_input_witness:
  "well_formed_call 6 example_store [1, 2, 3] 3 (replicate 6 (None :: nat option)) 0
   \<and> (100 :: UINT64) \<noteq> 0
   \<and> recorded_call [1, 2, 3] 3 100 = Some three_dimm_recorded
   \<and> Status three_dimm_recorded = EFI_SUCCESS
   \<and> map CallDimms (received three_dimm_recorded) = [[1, 2], [3]]
   \<and> mset (concat (map CallDimms (received three_dimm_recorded)))
        = mset (take (unat (3 :: UINT32)) [1, 2, 3])
   \<and> sum_list (map (\<lambda>c. unat (CallDimmsNum c)) (received three_dimm_recorded))
        = unat (3 :: UINT32)
   \<and> list_all (\<lambda>c. unat (CallDimmsNum c) = length (CallDimms c)) (received three_dimm_recorded)
   \<and> distinct (take (unat (3 :: UINT32)) [1, 2, 3 :: dimm_ptr])
   \<and> distinct (concat (map CallDimms (received three_dimm_recorded)))"
proof -
  have st: "Status three_dimm_recorded = EFI_SUCCESS"
    by (simp add: three_dimm_recorded_def)
  have d: "distinct (take (unat (3 :: UINT32)) [1, 2, 3 :: dimm_ptr])"
    by simp
  have nz: "(100 :: UINT64) \<noteq> 0"
    by simp
  from groups_partition_input [OF three_dimm_well_formed nz
         three_dimm_recorded_run [unfolded recorded_call_def] st]
  show ?thesis
    using three_dimm_well_formed three_dimm_recorded_run st d
    by (simp add: list_all_iff) (simp add: three_dimm_received)
qed

text \<open>
  The claim as stated fails for a requested size of zero: the call returns success and
  the collaborator receives no group, although the input holds one DIMM.
\<close>

theorem zero_size_groups_nothing:
  "recorded_call [1] 1 0
     = Some \<lparr>Status = EFI_SUCCESS, GoalArray = Some (replicate 6 None), GoalNum = Some 0,
             SetIndex = Some 0, CollaboratorState = (0, []), CallLog = []\<rparr>
   \<and> mset (concat (map CallDimms ([] :: goal_call list)))
        \<noteq> mset (take (unat (1 :: UINT32)) [1 :: dimm_ptr])
   \<and> sum_list (map (\<lambda>c. unat (CallDimmsNum c)) ([] :: goal_call list)) \<noteq> unat (1 :: UINT32)"
  by (simp add: recorded_call_def PerformInterleavingAndCreateGoal_def)

section \<open>Capacity allocated to the groups\<close>

text \<open>The DIMMs in slots 0 and 1, with $2^{63}$ capacity units requested.\<close>

definition wrapping_recorded :: "(nat, nat \<times> goal_call list) outcome" where
  "wrapping_recorded =
     \<lparr>Status = EFI_SUCCESS, GoalArray = Some [Some 0, None, None, None, None, None],
      GoalNum = Some 1, SetIndex = Some 1,
      CollaboratorState = (1, [\<lparr>CallDimms = [1, 2], CallDimmsNum = 2, CallSize = 0\<rparr>]),
      CallLog = [\<lparr>CallDimms = [1, 2], CallDimmsNum = 2, CallSize = 0\<rparr>]\<rparr>"

lemma wrapping_recorded_run: "recorded_call [1, 2] 2 (2 ^ 63) = Some wrapping_recorded"
  by code_simp

lemma wrapping_received:
  "received wrapping_recorded = [\<lparr>CallDimms = [1, 2], CallDimmsNum = 2, CallSize = 0\<rparr>]"
  by (simp add: received_def wrapping_recorded_def)

lemma two_dimm_well_formed:
  "well_formed_call 6 example_store [1, 2] 2 (replicate 6 (None :: nat option)) 0"
  by code_simp

text \<open>
  C5, as amended. Let the collaborator be any function, recording what it receives. In
  every well-formed call, whatever its status, its list and the requested size, the
  capacity shares the collaborator received add up to at most the requested size, and
  the share of every group for which \<open>InterleaveSetSize * DimmsUsed\<close> is below $2^{64}$
  is exactly the truncated quotient \<open>InterleaveSetSize * DimmsUsed div DimmsNum\<close>. A
  successful call with a non-empty list and a non-zero requested size has at least one
  group. In a successful call with at least one group in which no product reaches
  $2^{64}$, the shortfall (requested size minus the sum of the shares) is at most the
  number of groups minus one.
\<close>

theorem shares_truncate:
  fixes CreateRegionGoal :: "('t, 'p, 'g, 's) goal_maker"
  assumes "well_formed_call MAX_DIMMS h pDimms DimmsNum goals goalNum"
    and "PerformInterleavingAndCreateGoal MAX_DIMMS h (recording CreateRegionGoal) (Some tmpl)
           (Some pDimms) DimmsNum InterleaveSetSize prefs sq (Some goals) (Some goalNum)
           (Some ix) (c, []) = Some out"
  shows "sum_list (map (\<lambda>c. unat (CallSize c)) (received out)) \<le> unat InterleaveSetSize
     \<and> (\<forall>c\<in>set (received out).
           unat InterleaveSetSize * unat (CallDimmsNum c) < 2 ^ 64 \<longrightarrow>
           unat (CallSize c) = unat InterleaveSetSize * unat (CallDimmsNum c) div unat DimmsNum)
     \<and> (Status out = EFI_SUCCESS \<and> DimmsNum \<noteq> 0 \<and> InterleaveSetSize \<noteq> 0
          \<longrightarrow> received out \<noteq> [])
     \<and> (Status out = EFI_SUCCESS \<and> received out \<noteq> []
          \<and> (\<forall>c\<in>set (received out). unat InterleaveSetSize * unat (CallDimmsNum c) < 2 ^ 64)
          \<longrightarrow> unat InterleaveSetSize - sum_list (map (\<lambda>c. unat (CallSize c)) (received out))
                \<le> length (received out) - 1)"
proof -
  from Perform_received [OF assms]
  have gc: "\<forall>c\<in>set (received out). good_call h DimmsNum InterleaveSetSize c"
    and le: "sum_list (map (\<lambda>c. unat (CallDimmsNum c)) (received out)) \<le> unat DimmsNum"
    and ok: "Status out = EFI_SUCCESS \<and> InterleaveSetSize \<noteq> 0 \<Longrightarrow>
               sum_list (map (\<lambda>c. unat (CallDimmsNum c)) (received out)) = unat DimmsNum"
    and zero: "InterleaveSetSize = 0 \<Longrightarrow> received out = []"
    by auto
  have upper: "sum_list (map (\<lambda>c. unat (CallSize c)) (received out)) \<le> unat InterleaveSetSize"
    using gc le by (rule shares_sum_le)
  have exact: "unat (CallSize c) = unat InterleaveSetSize * unat (CallDimmsNum c) div unat DimmsNum"
    if "c \<in> set (received out)" "unat InterleaveSetSize * unat (CallDimmsNum c) < 2 ^ 64" for c
    using good_call_size [of h DimmsNum InterleaveSetSize c] gc that by simp
  have some: "received out \<noteq> []"
    if "Status out = EFI_SUCCESS" "DimmsNum \<noteq> 0" "InterleaveSetSize \<noteq> 0"
  proof
    assume "received out = []"
    with ok that have "unat DimmsNum = 0" by simp
    with that(2) show False by (simp add: unat_eq_0)
  qed
  have short: "unat InterleaveSetSize - sum_list (map (\<lambda>c. unat (CallSize c)) (received out))
           \<le> length (received out) - 1"
    if st: "Status out = EFI_SUCCESS" and ne: "received out \<noteq> []"
      and fit: "\<forall>c\<in>set (received out). unat InterleaveSetSize * unat (CallDimmsNum c) < 2 ^ 64"
  proof -
    from ne zero have nz: "InterleaveSetSize \<noteq> 0" by auto
    with st ok have sm: "sum_list (map (\<lambda>c. unat (CallDimmsNum c)) (received out)) = unat DimmsNum"
      by simp
    from ne obtain c0 where "c0 \<in> set (received out)" by (cases "received out") auto
    from calls_need_dimms [OF gc this le] have n: "0 < unat DimmsNum" .
    from shares_shortfall [OF gc sm fit n] show ?thesis by auto
  qed
  show ?thesis using upper exact some short by blast
qed

theorem shares_truncate_witness:
  "well_formed_call 6 example_store [1, 2, 3] 3 (replicate 6 (None :: nat option)) 0
   \<and> recorded_call [1, 2, 3] 3 100 = Some three_dimm_recorded
   \<and> map CallSize (received three_dimm_recorded) = [66, 33]
   \<and> sum_list (map (\<lambda>c. unat (CallSize c)) (received three_dimm_recorded)) \<le> unat (100 :: UINT64)
   \<and> list_all (\<lambda>c. unat (100 :: UINT64) * unat (CallDimmsNum c) < 2 ^ 64
                 \<and> unat (CallSize c) = unat (100 :: UINT64) * unat (CallDimmsNum c)
                                            div unat (3 :: UINT32))
        (received three_dimm_recorded)
   \<and> Status three_dimm_recorded = EFI_SUCCESS \<and> (3 :: UINT32) \<noteq> 0 \<and> (100 :: UINT64) \<noteq> 0
   \<and> received three_dimm_recorded \<noteq> []
   \<and> unat (100 :: UINT64) - sum_list (map (\<lambda>c. unat (CallSize c)) (received three_dimm_recorded))
        \<le> length (received three_dimm_recorded) - 1"
proof -
  have st: "Status three_dimm_recorded = EFI_SUCCESS"
    by (simp add: three_dimm_recorded_def)
  have fit: "\<forall>c\<in>set (received three_dimm_recorded).
               unat (100 :: UINT64) * unat (CallDimmsNum c) < 2 ^ 64"
    by (simp add: three_dimm_received)
  from shares_truncate [OF three_dimm_well_formed three_dimm_recorded_run [unfolded recorded_call_def]]
    fit st
  show ?thesis
    using three_dimm_well_formed three_dimm_recorded_run
    by (simp add: list_all_iff) (simp add: three_dimm_received)
qed

text \<open>
  The claim as stated fails in two ways. When the product wraps, the share is not the
  truncated quotient and the shortfall is far above the bound: two DIMMs and $2^{63}$
  units give one group with share 0. And a successful call with no group at all (an
  empty list) leaves the whole request unallocated, which no bound of ``group count
  minus one'' covers.
\<close>

theorem share_wraps_and_empty_list:
  "recorded_call [1, 2] 2 (2 ^ 63) = Some wrapping_recorded
   \<and> Status wrapping_recorded = EFI_SUCCESS
   \<and> map CallSize (received wrapping_recorded) = [0]
   \<and> unat (0 :: UINT64) \<noteq> unat (2 ^ 63 :: UINT64) * unat (2 :: UINT32) div unat (2 :: UINT32)
   \<and> \<not> unat (2 ^ 63 :: UINT64)
          - sum_list (map (\<lambda>c. unat (CallSize c)) (received wrapping_recorded))
          \<le> length (received wrapping_recorded) - 1
   \<and> recorded_call [] 0 100
        = Some \<lparr>Status = EFI_SUCCESS, GoalArray = Some (replicate 6 None), GoalNum = Some 0,
                SetIndex = Some 0, CollaboratorState = (0, []), CallLog = []\<rparr>
   \<and> \<not> int (unat (100 :: UINT64)) - 0 \<le> int (length ([] :: goal_call list)) - 1"
proof -
  have "recorded_call [] 0 100
        = Some \<lparr>Status = EFI_SUCCESS, GoalArray = Some (replicate 6 None), GoalNum = Some 0,
                SetIndex = Some 0, CollaboratorState = (0, []), CallLog = []\<rparr>"
    by code_simp
  then show ?thesis
    using wrapping_recorded_run by (simp add: wrapping_received) (simp add: wrapping_recorded_def)
qed

text \<open>
  C10. Let the collaborator be any function, recording what it receives. In every
  well-formed call, each share the collaborator received is
  \<open>(InterleaveSetSize * DimmsUsed mod 2^64) div DimmsNum\<close>, and it equals the exact
  truncated quotient \<open>InterleaveSetSize * DimmsUsed div DimmsNum\<close> if and only if the
  product is below $2^{64}$. When a successful call has a group whose product wraps, the
  shortfall is at least the number of groups, so the bound ``group count minus one'' of
  the spec does not hold for it.
\<close>

theorem share_wraps_modulo:
  fixes CreateRegionGoal :: "('t, 'p, 'g, 's) goal_maker"
  assumes "well_formed_call MAX_DIMMS h pDimms DimmsNum goals goalNum"
    and "PerformInterleavingAndCreateGoal MAX_DIMMS h (recording CreateRegionGoal) (Some tmpl)
           (Some pDimms) DimmsNum InterleaveSetSize prefs sq (Some goals) (Some goalNum)
           (Some ix) (c, []) = Some out"
  shows "(\<forall>c\<in>set (received out).
            unat (CallSize c)
              = (unat InterleaveSetSize * unat (CallDimmsNum c)) mod 2 ^ 64 div unat DimmsNum
            \<and> (unat (CallSize c)
                  = unat InterleaveSetSize * unat (CallDimmsNum c) div unat DimmsNum
                \<longleftrightarrow> unat InterleaveSetSize * unat (CallDimmsNum c) < 2 ^ 64))
       \<and> (Status out = EFI_SUCCESS
            \<and> (\<exists>c\<in>set (received out). 2 ^ 64 \<le> unat InterleaveSetSize * unat (CallDimmsNum c))
          \<longrightarrow> sum_list (map (\<lambda>c. unat (CallSize c)) (received out)) + length (received out)
                \<le> unat InterleaveSetSize)"
proof -
  from Perform_received [OF assms]
  have gc: "\<forall>c\<in>set (received out). good_call h DimmsNum InterleaveSetSize c"
    and le: "sum_list (map (\<lambda>c. unat (CallDimmsNum c)) (received out)) \<le> unat DimmsNum"
    and ok: "Status out = EFI_SUCCESS \<and> InterleaveSetSize \<noteq> 0 \<Longrightarrow>
               sum_list (map (\<lambda>c. unat (CallDimmsNum c)) (received out)) = unat DimmsNum"
    by auto
  have each: "unat (CallSize c)
              = (unat InterleaveSetSize * unat (CallDimmsNum c)) mod 2 ^ 64 div unat DimmsNum
            \<and> (unat (CallSize c)
                  = unat InterleaveSetSize * unat (CallDimmsNum c) div unat DimmsNum
                \<longleftrightarrow> unat InterleaveSetSize * unat (CallDimmsNum c) < 2 ^ 64)"
    if c: "c \<in> set (received out)" for c
  proof -
    have n: "0 < unat DimmsNum" using calls_need_dimms [OF gc c le] .
    have b: "unat DimmsNum < 2 ^ 64" using unat32_bound [of DimmsNum] by simp
    have sz: "unat (CallSize c)
              = (unat InterleaveSetSize * unat (CallDimmsNum c)) mod 2 ^ 64 div unat DimmsNum"
      using good_call_size [of h DimmsNum InterleaveSetSize c] gc c by simp
    with share_exact_iff [OF n b, of "unat InterleaveSetSize * unat (CallDimmsNum c)"]
    show ?thesis by simp
  qed
  have wrapped: "sum_list (map (\<lambda>c. unat (CallSize c)) (received out)) + length (received out)
                \<le> unat InterleaveSetSize"
    if st: "Status out = EFI_SUCCESS" and c0: "c0 \<in> set (received out)"
      and w: "2 ^ 64 \<le> unat InterleaveSetSize * unat (CallDimmsNum c0)" for c0
  proof -
    have "InterleaveSetSize \<noteq> 0" using w by auto
    with st ok have sm: "sum_list (map (\<lambda>c. unat (CallDimmsNum c)) (received out)) = unat DimmsNum"
      by simp
    from shares_wrapped_shortfall [OF gc sm c0 w] show ?thesis .
  qed
  show ?thesis using each wrapped by blast
qed

theorem share_wraps_modulo_witness:
  "well_formed_call 6 example_store [1, 2] 2 (replicate 6 (None :: nat option)) 0
   \<and> recorded_call [1, 2] 2 (2 ^ 63) = Some wrapping_recorded
   \<and> Status wrapping_recorded = EFI_SUCCESS
   \<and> list_all (\<lambda>c. unat (CallSize c) = 0
                 \<and> (unat (2 ^ 63 :: UINT64) * unat (CallDimmsNum c)) mod 2 ^ 64
                       div unat (2 :: UINT32) = 0
                 \<and> unat (2 ^ 63 :: UINT64) * unat (CallDimmsNum c) div unat (2 :: UINT32) = 2 ^ 63
                 \<and> 2 ^ 64 \<le> unat (2 ^ 63 :: UINT64) * unat (CallDimmsNum c))
        (received wrapping_recorded)
   \<and> sum_list (map (\<lambda>c. unat (CallSize c)) (received wrapping_recorded))
        + length (received wrapping_recorded) \<le> unat (2 ^ 63 :: UINT64)"
proof -
  have st: "Status wrapping_recorded = EFI_SUCCESS"
    by (simp add: wrapping_recorded_def)
  from share_wraps_modulo [OF two_dimm_well_formed wrapping_recorded_run [unfolded recorded_call_def]]
  show ?thesis
    using two_dimm_well_formed wrapping_recorded_run st by (simp add: wrapping_received)
qed

section \<open>Accounting and termination\<close>

lemma sum_list_take_le:
  fixes xs :: "nat list"
  shows "sum_list (take k xs) \<le> sum_list xs"
proof -
  have "sum_list xs = sum_list (take k xs) + sum_list (drop k xs)"
    by (metis append_take_drop_id sum_list.append)
  then show ?thesis by simp
qed

text \<open>
  C6. In every well-formed call (valid pointers, \<open>DimmsNum\<close> within \<open>MAX_DIMMS\<close> and the
  caller's arrays, every listed pointer a DIMM with a slot index below 31) the status
  is never \<open>EFI_BAD_BUFFER_SIZE\<close>, and the running total of DIMMs consumed, which after
  each group is the sum of the counts passed to the collaborator so far, never exceeds
  \<open>DimmsNum\<close>. Duplicate entries in the list do not change this.
\<close>

theorem total_within_input:
  fixes CreateRegionGoal :: "('t, 'p, 'g, 's) goal_maker"
  assumes "well_formed_call MAX_DIMMS h pDimms DimmsNum goals goalNum"
    and "PerformInterleavingAndCreateGoal MAX_DIMMS h CreateRegionGoal (Some tmpl) (Some pDimms)
           DimmsNum InterleaveSetSize prefs sq (Some goals) (Some goalNum) (Some ix) c = Some out"
  shows "Status out \<noteq> EFI_BAD_BUFFER_SIZE
       \<and> (\<forall>k\<le>length (CallLog out).
             sum_list (map (\<lambda>c. unat (CallDimmsNum c)) (take k (CallLog out))) \<le> unat DimmsNum)"
proof -
  from Perform_outcome [OF assms(1), of CreateRegionGoal tmpl InterleaveSetSize prefs sq ix c]
    assms(2)
  have le: "sum_list (map (\<lambda>c. unat (CallDimmsNum c)) (CallLog out)) \<le> unat DimmsNum"
    and st: "Status out = EFI_SUCCESS \<or> Status out = EFI_ABORTED
               \<or> Status out = EFI_OUT_OF_RESOURCES"
    by auto
  have "sum_list (map (\<lambda>c. unat (CallDimmsNum c)) (take k (CallLog out))) \<le> unat DimmsNum"
    for k
    using sum_list_take_le [of k "map (\<lambda>c. unat (CallDimmsNum c)) (CallLog out)"] le
    by (simp add: take_map)
  with st show ?thesis by auto
qed

theorem total_within_input_witness:
  "well_formed_call 6 example_store [1, 2, 3] 3 (replicate 6 (None :: nat option)) 0
   \<and> example_call [1, 2, 3] 3 100 = Some three_dimm_outcome
   \<and> Status three_dimm_outcome \<noteq> EFI_BAD_BUFFER_SIZE
   \<and> map (\<lambda>k. sum_list (map (\<lambda>c. unat (CallDimmsNum c)) (take k (CallLog three_dimm_outcome))))
        [0, 1, 2] = [0, 2, 3]
   \<and> list_all (\<lambda>k. k \<le> length (CallLog three_dimm_outcome)
                 \<and> sum_list (map (\<lambda>c. unat (CallDimmsNum c)) (take k (CallLog three_dimm_outcome)))
                      \<le> unat (3 :: UINT32))
        [0, 1, 2]"
  using total_within_input [OF three_dimm_well_formed three_dimm_run [unfolded example_call_def]]
    three_dimm_well_formed three_dimm_run
  by (simp add: three_dimm_outcome_def)




























text \<open>
  The claim as stated, with the work of one iteration bounded by the table size times
  the list size, fails when the group is larger than the table. Thirty DIMMs, all in
  slot 0 (controller 0, channel 0), are one group, matched by the sixteenth pattern:
  the selector scans the list of 30 sixteen times (480 steps), and removing the thirty
  DIMMs from the working list takes 465 steps (30 comparisons and 435 moves), together
  945 steps, above 22 times 30. The state is the one at the head of the loop in the
  first iteration of the call.
\<close>

definition crowded_store :: dimm_store where
  "crowded_store = (\<lambda>p. if 1 \<le> p \<and> p \<le> 30 then Some \<lparr>ImcId = 0, ChannelId = 0\<rparr> else None)"

definition crowded_list :: "dimm_ptr list" where
  "crowded_list = [1..<31]"

definition crowded_state :: "(nat, nat) grouping" where
  "crowded_state =
     \<lparr>pDimmsCopy = crowded_list, pDimmsInterleaved = replicate 30 NULL, RemainingDimms = 30,
      TotalDimmsUsed = 0, RegionGoals = replicate 30 None, NewRegionsGoalNum = 0,
      InterleaveSetIndex = 0, Collaborator = 0, Calls = []\<rparr>"


lemma crowded_loop_head:
  "PerformInterleavingAndCreateGoal 30 crowded_store counting_maker (Some ()) (Some crowded_list)
     30 100 None 0 (Some (replicate 30 None)) (Some 0) (Some 0) 0
   = (case grouping_loop crowded_store counting_maker () 30 100 None 0 crowded_state of
        None \<Rightarrow> None
      | Some (ReturnCode, st) \<Rightarrow>
          Some \<lparr>Status = ReturnCode, GoalArray = Some (RegionGoals st),
                GoalNum = Some (NewRegionsGoalNum st), SetIndex = Some (InterleaveSetIndex st),
                CollaboratorState = Collaborator st, CallLog = Calls st\<rparr>)"
proof -
  have "length crowded_list = 30" by (simp add: crowded_list_def)
  then show ?thesis
    by (simp add: PerformInterleavingAndCreateGoal_def CopyMem_S_def crowded_state_def)
qed






section \<open>The pattern matcher\<close>

text \<open>
  C2. Take a list whose first \<open>DimmsNum\<close> entries are DIMMs with a slot index below 31,
  an output array with room for \<open>DimmsNum\<close> entries, a count of zero on entry (as the
  selector passes it) and a pattern, that is, a bitmap other than the sentinel zero,
  which is never a pattern and which the selector never passes to the matcher. Then
  \<open>GetDimmsFromListMatchingInterleaveSet\<close> leaves a non-zero count if and only if every
  slot the pattern names is the slot of some DIMM of the list, and then the count is the
  number of DIMMs written; the DIMMs written to the output are exactly the DIMMs of the
  list whose slot the pattern names, in list order; and when some named slot has no
  DIMM the count is zero.
\<close>

theorem match_all_or_nothing:
  assumes "unat DimmsNum \<le> length pDimms" and "unat DimmsNum \<le> length buf"
    and "\<forall>p\<in>set (take (unat DimmsNum) pDimms). valid_dimm h p"
    and "InterleaveMap \<noteq> 0"
  shows "\<exists>used.
      GetDimmsFromListMatchingInterleaveSet h (Some pDimms) DimmsNum InterleaveMap (Some buf)
          (Some 0)
        = Some (EFI_SUCCESS,
                Some (matched h InterleaveMap (take (unat DimmsNum) pDimms)
                        @ drop (length (matched h InterleaveMap (take (unat DimmsNum) pDimms))) buf),
                Some used)
      \<and> matched h InterleaveMap (take (unat DimmsNum) pDimms)
          = filter (\<lambda>p. bit InterleaveMap (slot_of h p)) (take (unat DimmsNum) pDimms)
      \<and> (used \<noteq> 0 \<longleftrightarrow>
           (\<forall>i. bit InterleaveMap i \<longrightarrow> (\<exists>p\<in>set (take (unat DimmsNum) pDimms). slot_of h p = i)))
      \<and> (used \<noteq> 0 \<longrightarrow> unat used = length (matched h InterleaveMap (take (unat DimmsNum) pDimms)))"
proof -
  let ?ws = "take (unat DimmsNum) pDimms"
  let ?sel = "matched h InterleaveMap ?ws"
  define used :: UINT32 where
    "used = (if fully_populated h InterleaveMap ?ws then of_nat (length ?sel) else 0)"
  have run: "GetDimmsFromListMatchingInterleaveSet h (Some pDimms) DimmsNum InterleaveMap
               (Some buf) (Some 0)
             = Some (EFI_SUCCESS, Some (?sel @ drop (length ?sel) buf), Some used)"
    unfolding used_def using assms(1,2,3) by (rule GetDimms_matched)
  have "length ?sel \<le> unat DimmsNum"
    using matched_length_le [of h InterleaveMap ?ws] by simp
  then have u: "unat (of_nat (length ?sel) :: UINT32) = length ?sel"
    by (rule unat_of_length)
  have ne: "fully_populated h InterleaveMap ?ws \<Longrightarrow> ?sel \<noteq> []"
    using matched_nonempty [OF _ assms(4)] by blast
  have "used \<noteq> 0 \<longleftrightarrow> fully_populated h InterleaveMap ?ws"
    unfolding used_def using u ne by auto
  then have nz: "used \<noteq> 0 \<longleftrightarrow>
      (\<forall>i. bit InterleaveMap i \<longrightarrow> (\<exists>p\<in>set ?ws. slot_of h p = i))"
    by (simp only: fully_populated_iff)
  have ln: "used \<noteq> 0 \<longrightarrow> unat used = length ?sel"
    unfolding used_def using u by simp
  have mf: "?sel = filter (\<lambda>p. bit InterleaveMap (slot_of h p)) ?ws"
    unfolding matched_def by (rule filter_cong) (simp_all add: named_by_def)
  show ?thesis
    using run mf nz ln by blast
qed

lemma example_list_valid:
  "\<forall>p\<in>set (take (unat (3 :: UINT32)) [1, 2, 3]). valid_dimm example_store p"
  by code_simp

theorem match_all_or_nothing_witness:
  "unat (3 :: UINT32) \<le> length [1, 2, 3 :: dimm_ptr]
   \<and> unat (3 :: UINT32) \<le> length [0, 0, 0 :: dimm_ptr]
   \<and> list_all (valid_dimm example_store) (take (unat (3 :: UINT32)) [1, 2, 3])
   \<and> (3 :: UINT32) \<noteq> 0
   \<and> GetDimmsFromListMatchingInterleaveSet example_store (Some [1, 2, 3]) 3 3 (Some [0, 0, 0])
        (Some 0) = Some (EFI_SUCCESS, Some [1, 2, 0], Some 2)
   \<and> matched example_store 3 (take (unat (3 :: UINT32)) [1, 2, 3]) = [1, 2]
   \<and> (2 :: UINT32) \<noteq> 0
   \<and> fully_populated example_store 3 (take (unat (3 :: UINT32)) [1, 2, 3])
   \<and> unat (2 :: UINT32) = length (matched example_store 3 (take (unat (3 :: UINT32)) [1, 2, 3]))
   \<and> GetDimmsFromListMatchingInterleaveSet example_store (Some [1, 2, 3]) 3 0x0F (Some [0, 0, 0])
        (Some 0) = Some (EFI_SUCCESS, Some [1, 2, 3], Some 0)
   \<and> \<not> fully_populated example_store 0x0F (take (unat (3 :: UINT32)) [1, 2, 3])"
proof -
  have m: "matched example_store 3 (take (unat (3 :: UINT32)) [1, 2, 3]) = [1, 2]"
    by code_simp
  have f: "fully_populated example_store 3 (take (unat (3 :: UINT32)) [1, 2, 3])"
    by code_simp
  have g: "\<not> fully_populated example_store 0x0F (take (unat (3 :: UINT32)) [1, 2, 3])"
    by code_simp
  have r: "GetDimmsFromListMatchingInterleaveSet example_store (Some [1, 2, 3]) 3 0x0F
        (Some [0, 0, 0]) (Some 0) = Some (EFI_SUCCESS, Some [1, 2, 3], Some 0)"
    by code_simp
  have "\<exists>used.
      GetDimmsFromListMatchingInterleaveSet example_store (Some [1, 2, 3]) 3 3 (Some [0, 0, 0])
          (Some 0)
        = Some (EFI_SUCCESS,
                Some (matched example_store 3 (take (unat (3 :: UINT32)) [1, 2, 3])
                        @ drop (length (matched example_store 3 (take (unat (3 :: UINT32)) [1, 2, 3])))
                            [0, 0, 0]),
                Some used)
      \<and> matched example_store 3 (take (unat (3 :: UINT32)) [1, 2, 3])
          = filter (\<lambda>p. bit (3 :: UINT32) (slot_of example_store p))
              (take (unat (3 :: UINT32)) [1, 2, 3])
      \<and> (used \<noteq> 0 \<longleftrightarrow>
           (\<forall>i. bit (3 :: UINT32) i
                \<longrightarrow> (\<exists>p\<in>set (take (unat (3 :: UINT32)) [1, 2, 3]). slot_of example_store p = i)))
      \<and> (used \<noteq> 0
           \<longrightarrow> unat used = length (matched example_store 3 (take (unat (3 :: UINT32)) [1, 2, 3])))"
    by (rule match_all_or_nothing) (simp_all add: example_list_valid)
  then obtain used :: UINT32 where
    a: "GetDimmsFromListMatchingInterleaveSet example_store (Some [1, 2, 3]) 3 3 (Some [0, 0, 0])
          (Some 0)
        = Some (EFI_SUCCESS,
                Some (matched example_store 3 (take (unat (3 :: UINT32)) [1, 2, 3])
                        @ drop (length (matched example_store 3 (take (unat (3 :: UINT32)) [1, 2, 3])))
                            [0, 0, 0]),
                Some used)"
    and c: "used \<noteq> 0 \<longleftrightarrow>
           (\<forall>i. bit (3 :: UINT32) i
                \<longrightarrow> (\<exists>p\<in>set (take (unat (3 :: UINT32)) [1, 2, 3]). slot_of example_store p = i))"
    and d: "used \<noteq> 0
           \<longrightarrow> unat used = length (matched example_store 3 (take (unat (3 :: UINT32)) [1, 2, 3]))"
    by blast
  from f c have "used \<noteq> 0"
    by (simp only: fully_populated_iff)
  with d m have "unat used = unat (2 :: UINT32)"
    by simp
  then have "used = 2"
    by (simp only: word_unat_eq_iff)
  with a m have
    "GetDimmsFromListMatchingInterleaveSet example_store (Some [1, 2, 3]) 3 3
       (Some [0, 0, 0]) (Some 0) = Some (EFI_SUCCESS, Some [1, 2, 0], Some 2)"
    by simp
  moreover have "list_all (valid_dimm example_store) (take (unat (3 :: UINT32)) [1, 2, 3])"
    using example_list_valid by (simp only: list_all_iff)
  ultimately show ?thesis
    using m f g r by simp
qed

text \<open>
  The sentinel zero is excluded because it names no slot: handed to the matcher, which
  the selector never does, it leaves the count zero.
\<close>

lemma sentinel_names_no_slot:
  "GetDimmsFromListMatchingInterleaveSet example_store (Some [1]) 1 0 (Some [0]) (Some 0)
     = Some (EFI_SUCCESS, Some [0], Some 0)
   \<and> pattern_slots 0 = []
   \<and> fully_populated example_store 0 [1]"
  by code_simp

section \<open>The priority table and the selector\<close>

lemma example_find_first:
  "List.find (\<lambda>pat. fully_populated example_store pat (take (unat (3 :: UINT32)) [1, 2, 3]))
     (butlast INTERLEAVE_SETS) = Some 3"
  by code_simp

lemma example_find_best:
  "FindBestInterleavingForDimms example_store (Some [1, 2, 3]) 3 (Some [0, 0, 0]) (Some 0)
     = Some (EFI_SUCCESS, Some [1, 2, 3], Some 2)"
  by code_simp

text \<open>
  C3. The table is, in this order: the pattern of all six slots; three patterns of four
  slots; the two patterns of three slots, each the three channels of one controller;
  the three patterns pairing the two controllers on one channel; six more patterns of
  two slots; the six patterns of one slot; and the sentinel zero, which stands nowhere
  else. For a list of DIMMs (slot indices below 31) and an output array with room for
  them, the selector returns the DIMMs matched by the first pattern of the table, in
  table order, all of whose slots are populated, and their number; if there is no such
  pattern it returns \<open>EFI_ABORTED\<close>.
\<close>

theorem table_order_and_first_match:
  "map pattern_slots INTERLEAVE_SETS =
     [[0, 1, 2, 3, 4, 5],
      [0, 1, 2, 3], [2, 3, 4, 5], [0, 1, 4, 5],
      [0, 2, 4], [1, 3, 5],
      [0, 1], [2, 3], [4, 5],
      [0, 2], [1, 3], [2, 4], [3, 5], [0, 4], [1, 5],
      [0], [1], [2], [3], [4], [5],
      []]
   \<and> last INTERLEAVE_SETS = END_OF_INTERLEAVE_SETS
   \<and> END_OF_INTERLEAVE_SETS \<notin> set (butlast INTERLEAVE_SETS)
   \<and> map (\<lambda>channel. unat (DIMM_LOCATION 0 channel)) [0, 1, 2] = [0, 2, 4]
   \<and> map (\<lambda>channel. unat (DIMM_LOCATION 1 channel)) [0, 1, 2] = [1, 3, 5]
   \<and> (unat n \<le> length l \<and> unat n \<le> length buf \<and> (\<forall>p\<in>set (take (unat n) l). valid_dimm h p)
        \<longrightarrow> (\<exists>buf'. length buf' = length buf \<and>
              (case List.find (\<lambda>pat. fully_populated h pat (take (unat n) l))
                      (butlast INTERLEAVE_SETS) of
                 None \<Rightarrow>
                   FindBestInterleavingForDimms h (Some l) n (Some buf) (Some 0)
                     = Some (EFI_ABORTED, Some buf', Some 0)
               | Some pat \<Rightarrow>
                   FindBestInterleavingForDimms h (Some l) n (Some buf) (Some 0)
                     = Some (EFI_SUCCESS, Some buf',
                             Some (of_nat (length (matched h pat (take (unat n) l)))))
                   \<and> take (length (matched h pat (take (unat n) l))) buf'
                       = matched h pat (take (unat n) l)
                   \<and> matched h pat (take (unat n) l) \<noteq> [])))"
proof (intro conjI impI)
  show "map pattern_slots INTERLEAVE_SETS =
     [[0, 1, 2, 3, 4, 5],
      [0, 1, 2, 3], [2, 3, 4, 5], [0, 1, 4, 5],
      [0, 2, 4], [1, 3, 5],
      [0, 1], [2, 3], [4, 5],
      [0, 2], [1, 3], [2, 4], [3, 5], [0, 4], [1, 5],
      [0], [1], [2], [3], [4], [5],
      []]"
    by code_simp
  show "last INTERLEAVE_SETS = END_OF_INTERLEAVE_SETS"
    by (simp add: INTERLEAVE_SETS_def)
  show "END_OF_INTERLEAVE_SETS \<notin> set (butlast INTERLEAVE_SETS)"
    by (simp add: INTERLEAVE_SETS_def END_OF_INTERLEAVE_SETS_def)
  show "map (\<lambda>channel. unat (DIMM_LOCATION 0 channel)) [0, 1, 2] = [0, 2, 4]"
    by (simp add: DIMM_LOCATION_def CHANNELS_PER_IMC_def)
  show "map (\<lambda>channel. unat (DIMM_LOCATION 1 channel)) [0, 1, 2] = [1, 3, 5]"
    by (simp add: DIMM_LOCATION_def CHANNELS_PER_IMC_def)
next
  assume a: "unat n \<le> length l \<and> unat n \<le> length buf
               \<and> (\<forall>p\<in>set (take (unat n) l). valid_dimm h p)"
  then have a1: "unat n \<le> length l" and a2: "unat n \<le> length buf"
    and a3: "\<forall>p\<in>set (take (unat n) l). valid_dimm h p"
    by simp_all
  from FindBest_first [OF a1 a2 a3] obtain buf' where
    len: "length buf' = length buf" and
    r: "(case List.find (\<lambda>pat. fully_populated h pat (take (unat n) l)) patterns of
         None \<Rightarrow> FindBestInterleavingForDimms h (Some l) n (Some buf) (Some 0)
                   = Some (EFI_ABORTED, Some buf', Some 0)
       | Some pat \<Rightarrow>
           FindBestInterleavingForDimms h (Some l) n (Some buf) (Some 0)
             = Some (EFI_SUCCESS, Some buf',
                     Some (of_nat (length (matched h pat (take (unat n) l)))))
           \<and> take (length (matched h pat (take (unat n) l))) buf'
               = matched h pat (take (unat n) l)
           \<and> matched h pat (take (unat n) l) \<noteq> []
           \<and> pat \<in> set patterns)"
    by blast
  show "\<exists>buf'. length buf' = length buf \<and>
              (case List.find (\<lambda>pat. fully_populated h pat (take (unat n) l))
                      (butlast INTERLEAVE_SETS) of
                 None \<Rightarrow>
                   FindBestInterleavingForDimms h (Some l) n (Some buf) (Some 0)
                     = Some (EFI_ABORTED, Some buf', Some 0)
               | Some pat \<Rightarrow>
                   FindBestInterleavingForDimms h (Some l) n (Some buf) (Some 0)
                     = Some (EFI_SUCCESS, Some buf',
                             Some (of_nat (length (matched h pat (take (unat n) l)))))
                   \<and> take (length (matched h pat (take (unat n) l))) buf'
                       = matched h pat (take (unat n) l)
                   \<and> matched h pat (take (unat n) l) \<noteq> [])"
    using len r unfolding patterns_def
    by (intro exI [of _ buf']) (simp split: option.splits)
qed

theorem table_order_and_first_match_witness:
  "unat (3 :: UINT32) \<le> length [1, 2, 3 :: dimm_ptr]
   \<and> unat (3 :: UINT32) \<le> length [0, 0, 0 :: dimm_ptr]
   \<and> list_all (valid_dimm example_store) (take (unat (3 :: UINT32)) [1, 2, 3])
   \<and> List.find (\<lambda>pat. fully_populated example_store pat (take (unat (3 :: UINT32)) [1, 2, 3]))
        (butlast INTERLEAVE_SETS) = Some 3
   \<and> matched example_store 3 (take (unat (3 :: UINT32)) [1, 2, 3]) = [1, 2]
   \<and> FindBestInterleavingForDimms example_store (Some [1, 2, 3]) 3 (Some [0, 0, 0]) (Some 0)
        = Some (EFI_SUCCESS, Some [1, 2, 3], Some 2)
   \<and> take 2 [1, 2, 3 :: dimm_ptr] = [1, 2]"
proof -
  have m: "matched example_store 3 (take (unat (3 :: UINT32)) [1, 2, 3]) = [1, 2]"
    by code_simp
  have pre: "unat (3 :: UINT32) \<le> length [1, 2, 3 :: dimm_ptr]
      \<and> unat (3 :: UINT32) \<le> length [0, 0, 0 :: dimm_ptr]
      \<and> (\<forall>p\<in>set (take (unat (3 :: UINT32)) [1, 2, 3]). valid_dimm example_store p)"
    using example_list_valid by simp
  from table_order_and_first_match [of 3 "[1, 2, 3]" "[0, 0, 0]" example_store] pre
  obtain buf' where
    "length buf' = length [0, 0, 0 :: dimm_ptr] \<and>
       (case List.find (\<lambda>pat. fully_populated example_store pat
                                (take (unat (3 :: UINT32)) [1, 2, 3]))
               (butlast INTERLEAVE_SETS) of
          None \<Rightarrow>
            FindBestInterleavingForDimms example_store (Some [1, 2, 3]) 3 (Some [0, 0, 0]) (Some 0)
              = Some (EFI_ABORTED, Some buf', Some 0)
        | Some pat \<Rightarrow>
            FindBestInterleavingForDimms example_store (Some [1, 2, 3]) 3 (Some [0, 0, 0]) (Some 0)
              = Some (EFI_SUCCESS, Some buf',
                      Some (of_nat (length (matched example_store pat
                                               (take (unat (3 :: UINT32)) [1, 2, 3])))))
            \<and> take (length (matched example_store pat (take (unat (3 :: UINT32)) [1, 2, 3]))) buf'
                = matched example_store pat (take (unat (3 :: UINT32)) [1, 2, 3])
            \<and> matched example_store pat (take (unat (3 :: UINT32)) [1, 2, 3]) \<noteq> [])"
    by blast
  then have "FindBestInterleavingForDimms example_store (Some [1, 2, 3]) 3 (Some [0, 0, 0]) (Some 0)
        = Some (EFI_SUCCESS, Some buf', Some 2)"
    by (simp only: example_find_first option.case m) simp
  then have "FindBestInterleavingForDimms example_store (Some [1, 2, 3]) 3 (Some [0, 0, 0])
        (Some 0) = Some (EFI_SUCCESS, Some [1, 2, 3], Some 2)"
    using example_find_best by simp
  moreover have "list_all (valid_dimm example_store) (take (unat (3 :: UINT32)) [1, 2, 3])"
    using example_list_valid by (simp only: list_all_iff)
  ultimately show ?thesis
    using m example_find_first by simp
qed

section \<open>Populations the table cannot explain\<close>

lemma patterns_within_six_slots:
  "pat \<in> set patterns \<Longrightarrow> pattern_slots pat \<noteq> [] \<and> (\<forall>i\<in>set (pattern_slots pat). i \<le> 5)"
proof -
  have "list_all (\<lambda>pat. pattern_slots pat \<noteq> [] \<and> list_all (\<lambda>i. i \<le> 5) (pattern_slots pat))
          patterns"
    by code_simp
  then show "pat \<in> set patterns \<Longrightarrow>
      pattern_slots pat \<noteq> [] \<and> (\<forall>i\<in>set (pattern_slots pat). i \<le> 5)"
    by (simp add: list_all_iff)
qed

lemma single_slot_pattern:
  assumes "i \<le> 5"
  shows "\<exists>pat\<in>set patterns. pattern_slots pat = [i]"
proof -
  have s: "map pattern_slots (drop 15 patterns) = [[0], [1], [2], [3], [4], [5]]"
    by code_simp
  from assms have "i = 0 \<or> i = 1 \<or> i = 2 \<or> i = 3 \<or> i = 4 \<or> i = 5"
    by auto
  then have "[i] \<in> set (map pattern_slots (drop 15 patterns))"
    unfolding s by auto
  then obtain pat where "pat \<in> set (drop 15 patterns)" "pattern_slots pat = [i]"
    by auto
  then show ?thesis
    using set_drop_subset [of 15 patterns] by blast
qed

lemma no_pattern_iff_no_table_slot:
  "(\<forall>pat\<in>set patterns. \<not> fully_populated h pat ws) \<longleftrightarrow> (\<forall>p\<in>set ws. 5 < slot_of h p)"
proof
  assume none: "\<forall>pat\<in>set patterns. \<not> fully_populated h pat ws"
  show "\<forall>p\<in>set ws. 5 < slot_of h p"
  proof (rule ccontr)
    assume "\<not> (\<forall>p\<in>set ws. 5 < slot_of h p)"
    then obtain p where p: "p \<in> set ws" "slot_of h p \<le> 5" by auto
    from single_slot_pattern [OF p(2)] obtain pat where
      pat: "pat \<in> set patterns" "pattern_slots pat = [slot_of h p]" by blast
    then have "fully_populated h pat ws"
      using p(1) by (simp add: fully_populated_def)
    with none pat(1) show False by blast
  qed
next
  assume far: "\<forall>p\<in>set ws. 5 < slot_of h p"
  show "\<forall>pat\<in>set patterns. \<not> fully_populated h pat ws"
  proof (intro ballI notI)
    fix pat assume pat: "pat \<in> set patterns" and fp: "fully_populated h pat ws"
    from patterns_within_six_slots [OF pat] obtain i where
      i: "i \<in> set (pattern_slots pat)" "i \<le> 5"
      by (cases "pattern_slots pat") auto
    with fp obtain p where "p \<in> set ws" "slot_of h p = i"
      by (auto simp: fully_populated_def)
    with far i(2) show False by auto
  qed
qed

text \<open>
  C4, as amended. The selector, on a list of DIMMs (slot indices below 31) and an
  output array with room for them, returns \<open>EFI_ABORTED\<close> exactly when no pattern of
  the table has all its slots populated, which is exactly when no DIMM of the list is
  in one of the slots 0 to 5. For a well-formed call with a non-empty list and a
  non-zero requested size in which no pattern of the table has all its slots populated
  by the input, \<open>PerformInterleavingAndCreateGoal\<close> returns \<open>EFI_ABORTED\<close> from its first
  iteration: the collaborator is not called, and the goal array, the goal count and
  the interleave set index are what they were.
\<close>

theorem no_known_topology_aborts:
  fixes CreateRegionGoal :: "('t, 'p, 'g, 's) goal_maker"
  shows
  "(unat n \<le> length l \<and> unat n \<le> length buf \<and> (\<forall>p\<in>set (take (unat n) l). valid_dimm h p)
      \<longrightarrow> (\<exists>rc buf' used.
            FindBestInterleavingForDimms h (Some l) n (Some buf) (Some 0)
              = Some (rc, Some buf', Some used)
            \<and> (rc = EFI_ABORTED \<longleftrightarrow>
                 (\<forall>pat\<in>set (butlast INTERLEAVE_SETS).
                     \<not> fully_populated h pat (take (unat n) l)))
            \<and> (rc = EFI_ABORTED \<longleftrightarrow> (\<forall>p\<in>set (take (unat n) l). 5 < slot_of h p))
            \<and> (rc = EFI_ABORTED \<longrightarrow> used = 0)))
   \<and> (well_formed_call MAX_DIMMS h pDimms DimmsNum goals goalNum
        \<and> DimmsNum \<noteq> 0 \<and> InterleaveSetSize \<noteq> 0
        \<and> (\<forall>pat\<in>set (butlast INTERLEAVE_SETS).
               \<not> fully_populated h pat (take (unat DimmsNum) pDimms))
      \<longrightarrow> PerformInterleavingAndCreateGoal MAX_DIMMS h CreateRegionGoal (Some tmpl) (Some pDimms)
            DimmsNum InterleaveSetSize prefs sq (Some goals) (Some goalNum) (Some ix) c
          = Some \<lparr>Status = EFI_ABORTED, GoalArray = Some goals, GoalNum = Some goalNum,
                  SetIndex = Some ix, CollaboratorState = c, CallLog = []\<rparr>)"
proof (intro conjI impI)
  assume a: "unat n \<le> length l \<and> unat n \<le> length buf
               \<and> (\<forall>p\<in>set (take (unat n) l). valid_dimm h p)"
  then have a1: "unat n \<le> length l" and a2: "unat n \<le> length buf"
    and a3: "\<forall>p\<in>set (take (unat n) l). valid_dimm h p"
    by simp_all
  let ?ws = "take (unat n) l"
  from FindBest_first [OF a1 a2 a3] obtain buf' where
    r: "(case List.find (\<lambda>pat. fully_populated h pat ?ws) patterns of
         None \<Rightarrow> FindBestInterleavingForDimms h (Some l) n (Some buf) (Some 0)
                   = Some (EFI_ABORTED, Some buf', Some 0)
       | Some pat \<Rightarrow>
           FindBestInterleavingForDimms h (Some l) n (Some buf) (Some 0)
             = Some (EFI_SUCCESS, Some buf', Some (of_nat (length (matched h pat ?ws))))
           \<and> take (length (matched h pat ?ws)) buf' = matched h pat ?ws
           \<and> matched h pat ?ws \<noteq> []
           \<and> pat \<in> set patterns)"
    by blast
  show "\<exists>rc buf' used.
            FindBestInterleavingForDimms h (Some l) n (Some buf) (Some 0)
              = Some (rc, Some buf', Some used)
            \<and> (rc = EFI_ABORTED \<longleftrightarrow>
                 (\<forall>pat\<in>set (butlast INTERLEAVE_SETS). \<not> fully_populated h pat ?ws))
            \<and> (rc = EFI_ABORTED \<longleftrightarrow> (\<forall>p\<in>set ?ws. 5 < slot_of h p))
            \<and> (rc = EFI_ABORTED \<longrightarrow> used = 0)"
  proof (cases "List.find (\<lambda>pat. fully_populated h pat ?ws) patterns")
    case None
    then have none: "\<forall>pat\<in>set patterns. \<not> fully_populated h pat ?ws"
      by (simp add: find_None_iff)
    then have "\<forall>p\<in>set ?ws. 5 < slot_of h p"
      using no_pattern_iff_no_table_slot [of h ?ws] by blast
    moreover from r None have
      "FindBestInterleavingForDimms h (Some l) n (Some buf) (Some 0)
         = Some (EFI_ABORTED, Some buf', Some 0)"
      by simp
    ultimately show ?thesis
      using none unfolding patterns_def by blast
  next
    case (Some pat)
    then have "pat \<in> set patterns \<and> fully_populated h pat ?ws"
      by (auto simp: find_Some_iff)
    then have some: "\<not> (\<forall>pat\<in>set patterns. \<not> fully_populated h pat ?ws)"
      by blast
    then have "\<not> (\<forall>p\<in>set ?ws. 5 < slot_of h p)"
      using no_pattern_iff_no_table_slot [of h ?ws] by blast
    moreover from r Some have
      "FindBestInterleavingForDimms h (Some l) n (Some buf) (Some 0)
         = Some (EFI_SUCCESS, Some buf', Some (of_nat (length (matched h pat ?ws))))"
      by simp
    ultimately show ?thesis
      using some unfolding patterns_def by (metis EFI_STATUS.distinct(3))
  qed
next
  assume b: "well_formed_call MAX_DIMMS h pDimms DimmsNum goals goalNum
        \<and> DimmsNum \<noteq> 0 \<and> InterleaveSetSize \<noteq> 0
        \<and> (\<forall>pat\<in>set (butlast INTERLEAVE_SETS).
               \<not> fully_populated h pat (take (unat DimmsNum) pDimms))"
  then have capm: "unat DimmsNum \<le> MAX_DIMMS" and capl: "unat DimmsNum \<le> length pDimms"
    and valid: "\<forall>p\<in>set (take (unat DimmsNum) pDimms). valid_dimm h p"
    and nz: "DimmsNum \<noteq> 0" and sz: "InterleaveSetSize \<noteq> 0"
    and none: "\<forall>pat\<in>set patterns. \<not> fully_populated h pat (take (unat DimmsNum) pDimms)"
    by (simp_all add: well_formed_call_def patterns_def)
  let ?copy = "take (unat DimmsNum) pDimms @ drop (unat DimmsNum) (replicate MAX_DIMMS NULL)"
  let ?zero = "replicate MAX_DIMMS NULL"
  have pos: "0 < DimmsNum" using nz by (simp add: word_gt_0)
  have cp: "CopyMem_S ?zero pDimms (unat DimmsNum) = Some ?copy"
    using capm capl by (simp add: CopyMem_S_def)
  have tk: "take (unat DimmsNum) ?copy = take (unat DimmsNum) pDimms"
    using capl by simp
  have c1: "unat DimmsNum \<le> length ?copy" using capm capl by simp
  have c2: "unat DimmsNum \<le> length ?zero" using capm by simp
  have c3: "\<forall>p\<in>set (take (unat DimmsNum) ?copy). valid_dimm h p"
    using valid tk by simp
  have fnd: "List.find (\<lambda>pat. fully_populated h pat (take (unat DimmsNum) ?copy)) patterns = None"
    using none tk by (simp add: find_None_iff)
  from FindBest_first [OF c1 c2 c3] fnd obtain buf' where
    f: "FindBestInterleavingForDimms h (Some ?copy) DimmsNum (Some ?zero) (Some 0)
          = Some (EFI_ABORTED, Some buf', Some 0)"
    by auto
  let ?st0 = "\<lparr>pDimmsCopy = ?copy, pDimmsInterleaved = ?zero,
               RemainingDimms = DimmsNum, TotalDimmsUsed = 0, RegionGoals = goals,
               NewRegionsGoalNum = goalNum, InterleaveSetIndex = ix, Collaborator = c,
               Calls = []\<rparr> :: ('g, 's) grouping"
  have it: "grouping_iteration h CreateRegionGoal tmpl DimmsNum InterleaveSetSize prefs sq ?st0
      = Some (Finish EFI_ABORTED (?st0\<lparr>pDimmsInterleaved := buf'\<rparr>))"
    using f by (simp add: grouping_iteration_def EFI_ERROR_def)
  have lp: "grouping_loop h CreateRegionGoal tmpl DimmsNum InterleaveSetSize prefs sq ?st0
      = Some (EFI_ABORTED, ?st0\<lparr>pDimmsInterleaved := buf'\<rparr>)"
    using pos it by (subst grouping_loop.simps) simp
  show "PerformInterleavingAndCreateGoal MAX_DIMMS h CreateRegionGoal (Some tmpl) (Some pDimms)
            DimmsNum InterleaveSetSize prefs sq (Some goals) (Some goalNum) (Some ix) c
          = Some \<lparr>Status = EFI_ABORTED, GoalArray = Some goals, GoalNum = Some goalNum,
                  SetIndex = Some ix, CollaboratorState = c, CallLog = []\<rparr>"
    using sz pos cp lp by (simp add: PerformInterleavingAndCreateGoal_def)
qed

lemma unexplained_dimm_well_formed:
  "well_formed_call 6 example_store [7] 1 (replicate 6 (None :: nat option)) 0"
  by code_simp

lemma unexplained_dimm_no_pattern:
  "\<forall>pat\<in>set (butlast INTERLEAVE_SETS).
      \<not> fully_populated example_store pat (take (unat (1 :: UINT32)) [7])"
  by code_simp

lemma unexplained_dimm_find:
  "FindBestInterleavingForDimms example_store (Some [7]) 1 (Some [0]) (Some 0)
     = Some (EFI_ABORTED, Some [0], Some 0)"
  by code_simp

theorem no_known_topology_aborts_witness:
  "unat (1 :: UINT32) \<le> length [7 :: dimm_ptr] \<and> unat (1 :: UINT32) \<le> length [0 :: dimm_ptr]
   \<and> list_all (valid_dimm example_store) (take (unat (1 :: UINT32)) [7])
   \<and> FindBestInterleavingForDimms example_store (Some [7]) 1 (Some [0]) (Some 0)
        = Some (EFI_ABORTED, Some [0], Some 0)
   \<and> list_all (\<lambda>pat. \<not> fully_populated example_store pat (take (unat (1 :: UINT32)) [7]))
        (butlast INTERLEAVE_SETS)
   \<and> list_all (\<lambda>p. 5 < slot_of example_store p) (take (unat (1 :: UINT32)) [7])
   \<and> well_formed_call 6 example_store [7] 1 (replicate 6 (None :: nat option)) 0
   \<and> (1 :: UINT32) \<noteq> 0 \<and> (100 :: UINT64) \<noteq> 0
   \<and> example_call [7] 1 100
        = Some \<lparr>Status = EFI_ABORTED, GoalArray = Some (replicate 6 None), GoalNum = Some 0,
                SetIndex = Some 0, CollaboratorState = 0, CallLog = []\<rparr>"
proof -
  have v: "\<forall>p\<in>set (take (unat (1 :: UINT32)) [7]). valid_dimm example_store p"
    by code_simp
  have far: "\<forall>p\<in>set (take (unat (1 :: UINT32)) [7]). 5 < slot_of example_store p"
    by code_simp
  have pre: "well_formed_call 6 example_store [7] 1 (replicate 6 (None :: nat option)) 0
        \<and> (1 :: UINT32) \<noteq> 0 \<and> (100 :: UINT64) \<noteq> 0
        \<and> (\<forall>pat\<in>set (butlast INTERLEAVE_SETS).
               \<not> fully_populated example_store pat (take (unat (1 :: UINT32)) [7]))"
    using unexplained_dimm_well_formed unexplained_dimm_no_pattern by simp
  from no_known_topology_aborts [of 1 "[7]" "[0]" example_store 6 "[7]" 1
         "replicate 6 (None :: nat option)" 0 100 counting_maker "()" None 0 0 0,
         THEN conjunct2] pre
  have "example_call [7] 1 100
        = Some \<lparr>Status = EFI_ABORTED, GoalArray = Some (replicate 6 None), GoalNum = Some 0,
                SetIndex = Some 0, CollaboratorState = 0, CallLog = []\<rparr>"
    unfolding example_call_def by blast
  moreover have "list_all (valid_dimm example_store) (take (unat (1 :: UINT32)) [7])"
    using v by (simp only: list_all_iff)
  moreover have "list_all (\<lambda>p. 5 < slot_of example_store p) (take (unat (1 :: UINT32)) [7])"
    using far by (simp only: list_all_iff)
  moreover have
    "list_all (\<lambda>pat. \<not> fully_populated example_store pat (take (unat (1 :: UINT32)) [7]))
        (butlast INTERLEAVE_SETS)"
    using unexplained_dimm_no_pattern by (simp only: list_all_iff)
  ultimately show ?thesis
    using unexplained_dimm_find unexplained_dimm_well_formed by simp
qed

text \<open>
  The population bitmap of the spec (section 3): bit \<open>i\<close> is set when some DIMM of the
  list is in slot \<open>i\<close>.
\<close>

definition population :: "dimm_store \<Rightarrow> dimm_ptr list \<Rightarrow> UINT32" where
  "population h ws = fold (\<lambda>p bitmap. bitmap OR push_bit (slot_of h p) 1) ws 0"

text \<open>
  The claim as stated fails. The DIMMs in slots 0, 1 and 2 have the bitmap 7, which is
  no entry of the table, and yet the call succeeds with two goals, since the pairs and
  the single slots of the table cover them. And the DIMMs in slot 0 and in the
  unexplained slot 6 (bitmap \<open>0x41\<close>, no entry either) end with \<open>EFI_ABORTED\<close> after one
  goal has been created.
\<close>

theorem bitmap_outside_table_still_grouped:
  "population example_store [1, 2, 3] = 7
   \<and> (7 :: UINT32) \<notin> set INTERLEAVE_SETS
   \<and> example_call [1, 2, 3] 3 100 = Some three_dimm_outcome
   \<and> Status three_dimm_outcome = EFI_SUCCESS
   \<and> GoalNum three_dimm_outcome = Some 2
   \<and> population example_store [1, 7] = 0x41
   \<and> (0x41 :: UINT32) \<notin> set INTERLEAVE_SETS
   \<and> example_call [1, 7] 2 100
        = Some \<lparr>Status = EFI_ABORTED, GoalArray = Some [Some 0, None, None, None, None, None],
                GoalNum = Some 1, SetIndex = Some 1, CollaboratorState = 1,
                CallLog = [\<lparr>CallDimms = [1], CallDimmsNum = 1, CallSize = 50\<rparr>]\<rparr>"
proof -
  have "population example_store [1, 2, 3] = 7" "population example_store [1, 7] = 0x41"
    by code_simp+
  moreover have "(7 :: UINT32) \<notin> set INTERLEAVE_SETS" "(0x41 :: UINT32) \<notin> set INTERLEAVE_SETS"
    by (simp_all add: INTERLEAVE_SETS_def END_OF_INTERLEAVE_SETS_def)
  moreover have "example_call [1, 7] 2 100
        = Some \<lparr>Status = EFI_ABORTED, GoalArray = Some [Some 0, None, None, None, None, None],
                GoalNum = Some 1, SetIndex = Some 1, CollaboratorState = 1,
                CallLog = [\<lparr>CallDimms = [1], CallDimmsNum = 1, CallSize = 50\<rparr>]\<rparr>"
    by code_simp
  ultimately show ?thesis
    using three_dimm_run by (simp add: three_dimm_outcome_def)
qed

end
